theory Spec2Isabelle
  imports Main
begin

section \<open>The hardware-button state machine of apps/system/js/hardware\_buttons.js\<close>

subsection \<open>Data model\<close>

text \<open>
  The eight values of \<^verbatim>\<open>e.detail.type\<close> that the \<^verbatim>\<open>mozChromeEvent\<close> listener
  (lines 81--95) passes on to \<^verbatim>\<open>state.process\<close>; every other value is dropped by
  the listener's \<^verbatim>\<open>switch\<close>.
\<close>

datatype signal =
  HomePress | HomeRelease | SleepPress | SleepRelease
  | VolumeUpPress | VolumeUpRelease | VolumeDownPress | VolumeDownRelease

text \<open>
  The types of the high-level events handed to \<^verbatim>\<open>fire\<close>: \<^verbatim>\<open>home\<close>,
  \<^verbatim>\<open>holdhome\<close>, \<^verbatim>\<open>sleep\<close>, \<^verbatim>\<open>wake\<close>, \<^verbatim>\<open>holdsleep\<close>, \<^verbatim>\<open>volumeup\<close>,
  \<^verbatim>\<open>volumedown\<close>, \<^verbatim>\<open>home+sleep\<close>, \<^verbatim>\<open>home+volume\<close>.
\<close>

datatype event =
  Home | HoldHome | Sleep | Wake | HoldSleep | VolumeUp | VolumeDown | HomeSleep | HomeVolume

text \<open>The five state objects of the module.\<close>

datatype state_obj = baseState | homeState | sleepState | volumeState | wakeState

text \<open>
  The functions handed to \<^verbatim>\<open>setTimeout\<close>: the closures of \<^verbatim>\<open>homeState.enter\<close>
  and \<^verbatim>\<open>sleepState.enter\<close>, \<^verbatim>\<open>volumeState.repeat\<close> bound to \<^verbatim>\<open>volumeState\<close>, and
  the closure of \<^verbatim>\<open>wakeState.enter\<close>, which captures the \<^verbatim>\<open>type\<close> it was entered
  with (\<open>None\<close> is \<^verbatim>\<open>undefined\<close>).
\<close>

datatype callback = HomeHold | SleepHold | VolumeRepeat | WakeHold "signal option"

text \<open>
  What a call of \<^verbatim>\<open>process\<close> can throw: a \<^verbatim>\<open>TypeError\<close> when \<^verbatim>\<open>process\<close> is read
  from \<^verbatim>\<open>undefined\<close> or \<^verbatim>\<open>null\<close>, a \<^verbatim>\<open>RangeError\<close> when \<^verbatim>\<open>wakeState\<close> would
  delegate to itself without end.
\<close>

datatype js_error = TypeError | RangeError

text \<open>
  The module's variables and the fields of its state objects (a \<open>None\<close> is \<^verbatim>\<open>null\<close> or
  \<^verbatim>\<open>undefined\<close>), followed by the collaborators the module talks to:
  \<^item> \<open>screenEnabled\<close> is \<^verbatim>\<open>ScreenManager.screenEnabled\<close>;
  \<^item> \<open>fired\<close> lists the types of the events given to \<^verbatim>\<open>window.dispatchEvent\<close>, oldest
    first;
  \<^item> \<open>console\<close> lists the keys reported through \<^verbatim>\<open>console.error\<close>;
  \<^item> \<open>now\<close>, \<open>next_id\<close> and \<open>pending\<close> are the timer service: the clock in
    milliseconds, the handle the next \<^verbatim>\<open>setTimeout\<close> returns, and the timers that are
    armed, each with its handle, its deadline and its callback, in the order of arming;
  \<^item> \<open>ran\<close> lists the handles of the timers whose callback has run.
\<close>

record machine =
  state :: "state_obj option"
  homeState_timer :: "nat option"
  sleepState_timer :: "nat option"
  volumeState_direction :: "signal option"
  volumeState_timer :: "nat option"
  volumeState_repeating :: bool
  wakeState_timer :: "nat option"
  wakeState_delegateState :: "state_obj option"
  screenEnabled :: bool
  fired :: "event list"
  console :: "signal list"
  now :: nat
  next_id :: nat
  pending :: "(nat \<times> nat \<times> callback) list"
  ran :: "nat list"

definition HOLD_INTERVAL :: nat where
  "HOLD_INTERVAL = 1500"

definition REPEAT_DELAY :: nat where
  "REPEAT_DELAY = 700"

definition REPEAT_INTERVAL :: nat where
  "REPEAT_INTERVAL = 100"

subsection \<open>The collaborators: dispatch sink, console and timers\<close>

text \<open>
  \<^verbatim>\<open>fire\<close> hands an event to \<^verbatim>\<open>window.dispatchEvent\<close>; what the listeners do with it
  is outside the module, and they do not call back into it.
\<close>

definition fire :: "event \<Rightarrow> machine \<Rightarrow> machine" where
  "fire ev m = m\<lparr>fired := fired m @ [ev]\<rparr>"

definition console_error :: "signal \<Rightarrow> machine \<Rightarrow> machine" where
  "console_error ty m = m\<lparr>console := console m @ [ty]\<rparr>"

text \<open>
  \<^verbatim>\<open>setTimeout\<close> returns a fresh handle and arms a single-shot timer that is due
  \<open>delay\<close> milliseconds from now; \<^verbatim>\<open>clearTimeout\<close> disarms the timer with the given
  handle and does nothing when there is none.
\<close>

definition setTimeout :: "callback \<Rightarrow> nat \<Rightarrow> machine \<Rightarrow> nat \<times> machine" where
  "setTimeout cb delay m =
     (next_id m,
      m\<lparr>next_id := Suc (next_id m), pending := pending m @ [(next_id m, now m + delay, cb)]\<rparr>)"

definition clearTimeout :: "nat \<Rightarrow> machine \<Rightarrow> machine" where
  "clearTimeout i m = m\<lparr>pending := filter (\<lambda>t. fst t \<noteq> i) (pending m)\<rparr>"

text \<open>The test \<^verbatim>\<open>if (this.timer)\<close>: \<^verbatim>\<open>null\<close> and \<^verbatim>\<open>0\<close> are falsy.\<close>

definition truthy :: "nat option \<Rightarrow> bool" where
  "truthy t = (case t of None \<Rightarrow> False | Some i \<Rightarrow> i \<noteq> 0)"

subsection \<open>Entering and leaving states\<close>

definition homeState_enter :: "machine \<Rightarrow> machine" where
  "homeState_enter m =
     (let (i, m1) = setTimeout HomeHold HOLD_INTERVAL m in m1\<lparr>homeState_timer := Some i\<rparr>)"

definition homeState_exit :: "machine \<Rightarrow> machine" where
  "homeState_exit m =
     (if truthy (homeState_timer m)
      then (clearTimeout (the (homeState_timer m)) m)\<lparr>homeState_timer := None\<rparr>
      else m)"

definition sleepState_enter :: "machine \<Rightarrow> machine" where
  "sleepState_enter m =
     (let (i, m1) = setTimeout SleepHold HOLD_INTERVAL m in m1\<lparr>sleepState_timer := Some i\<rparr>)"

definition sleepState_exit :: "machine \<Rightarrow> machine" where
  "sleepState_exit m =
     (if truthy (sleepState_timer m)
      then (clearTimeout (the (sleepState_timer m)) m)\<lparr>sleepState_timer := None\<rparr>
      else m)"

definition volumeState_enter :: "signal option \<Rightarrow> machine \<Rightarrow> machine" where
  "volumeState_enter ty m =
     (let m1 = m\<lparr>volumeState_direction := ty\<rparr>;
          m2 = m1\<lparr>volumeState_repeating := False\<rparr>;
          (i, m3) = setTimeout VolumeRepeat REPEAT_DELAY m2
      in m3\<lparr>volumeState_timer := Some i\<rparr>)"

definition volumeState_exit :: "machine \<Rightarrow> machine" where
  "volumeState_exit m =
     (if truthy (volumeState_timer m)
      then (clearTimeout (the (volumeState_timer m)) m)\<lparr>volumeState_timer := None\<rparr>
      else m)"

definition wakeState_enter :: "signal option \<Rightarrow> machine \<Rightarrow> machine" where
  "wakeState_enter ty m =
     (let m1 = (if ty = Some HomePress
                then m\<lparr>wakeState_delegateState := Some homeState\<rparr>
                else m\<lparr>wakeState_delegateState := Some sleepState\<rparr>);
          (i, m2) = setTimeout (WakeHold ty) HOLD_INTERVAL m1
      in m2\<lparr>wakeState_timer := Some i\<rparr>)"

definition wakeState_exit :: "machine \<Rightarrow> machine" where
  "wakeState_exit m =
     (if truthy (wakeState_timer m)
      then (clearTimeout (the (wakeState_timer m)) m)\<lparr>wakeState_timer := None\<rparr>
      else m)"

text \<open>\<^verbatim>\<open>baseState\<close> has neither \<^verbatim>\<open>enter\<close> nor \<^verbatim>\<open>exit\<close>.\<close>

fun exit_of :: "state_obj \<Rightarrow> machine \<Rightarrow> machine" where
  "exit_of baseState m = m"
| "exit_of homeState m = homeState_exit m"
| "exit_of sleepState m = sleepState_exit m"
| "exit_of volumeState m = volumeState_exit m"
| "exit_of wakeState m = wakeState_exit m"

fun enter_of :: "state_obj \<Rightarrow> signal option \<Rightarrow> machine \<Rightarrow> machine" where
  "enter_of baseState ty m = m"
| "enter_of homeState ty m = homeState_enter m"
| "enter_of sleepState ty m = sleepState_enter m"
| "enter_of volumeState ty m = volumeState_enter ty m"
| "enter_of wakeState ty m = wakeState_enter ty m"

definition setState :: "state_obj \<Rightarrow> signal option \<Rightarrow> machine \<Rightarrow> machine" where
  "setState s ty m =
     (let m1 = (case state m of None \<Rightarrow> m | Some cur \<Rightarrow> exit_of cur m);
          m2 = m1\<lparr>state := Some s\<rparr>
      in enter_of s ty m2)"

subsection \<open>The \<^verbatim>\<open>process\<close> methods\<close>

text \<open>
  The \<^verbatim>\<open>console.error\<close> after the \<^verbatim>\<open>switch\<close> of \<^verbatim>\<open>baseState.process\<close> (line 133) is
  reached by none of the eight signals.
\<close>

fun baseState_process :: "signal \<Rightarrow> machine \<Rightarrow> machine" where
  "baseState_process HomePress m =
     (if \<not> screenEnabled m then setState wakeState (Some HomePress) (fire Wake m)
      else setState homeState (Some HomePress) m)"
| "baseState_process SleepPress m =
     (if \<not> screenEnabled m then setState wakeState (Some SleepPress) (fire Wake m)
      else setState sleepState (Some SleepPress) m)"
| "baseState_process VolumeUpPress m = setState volumeState (Some VolumeUpPress) m"
| "baseState_process VolumeDownPress m = setState volumeState (Some VolumeDownPress) m"
| "baseState_process HomeRelease m = m"
| "baseState_process SleepRelease m = m"
| "baseState_process VolumeUpRelease m = m"
| "baseState_process VolumeDownRelease m = m"

fun homeState_process :: "signal \<Rightarrow> machine \<Rightarrow> machine" where
  "homeState_process HomeRelease m = setState baseState (Some HomeRelease) (fire Home m)"
| "homeState_process SleepPress m = setState baseState (Some SleepPress) (fire HomeSleep m)"
| "homeState_process VolumeUpPress m =
     setState baseState (Some VolumeUpPress) (fire HomeVolume m)"
| "homeState_process VolumeDownPress m =
     setState baseState (Some VolumeDownPress) (fire HomeVolume m)"
| "homeState_process ty m = setState baseState (Some ty) (console_error ty m)"

fun sleepState_process :: "signal \<Rightarrow> machine \<Rightarrow> machine" where
  "sleepState_process SleepRelease m = setState baseState (Some SleepRelease) (fire Sleep m)"
| "sleepState_process HomePress m = setState baseState (Some HomePress) (fire HomeSleep m)"
| "sleepState_process VolumeUpPress m = setState volumeState (Some VolumeUpPress) m"
| "sleepState_process VolumeDownPress m = setState volumeState (Some VolumeDownPress) m"
| "sleepState_process ty m = setState baseState (Some ty) (console_error ty m)"

definition volumeState_repeat :: "machine \<Rightarrow> machine" where
  "volumeState_repeat m =
     (let m1 = m\<lparr>volumeState_repeating := True\<rparr>;
          m2 = (if volumeState_direction m1 = Some VolumeUpPress then fire VolumeUp m1
                else fire VolumeDown m1);
          (i, m3) = setTimeout VolumeRepeat REPEAT_INTERVAL m2
      in m3\<lparr>volumeState_timer := Some i\<rparr>)"

text \<open>
  A release whose direction is not the recorded one leaves the \<^verbatim>\<open>switch\<close> through
  \<^verbatim>\<open>break\<close> and reaches the \<^verbatim>\<open>console.error\<close> and \<^verbatim>\<open>setState(baseState, type)\<close>
  of lines 266--267; the \<^verbatim>\<open>default\<close> branch returns at once.
\<close>

fun volumeState_process :: "signal \<Rightarrow> machine \<Rightarrow> machine" where
  "volumeState_process HomePress m = setState baseState (Some HomePress) (fire HomeVolume m)"
| "volumeState_process SleepPress m = setState sleepState (Some SleepPress) m"
| "volumeState_process VolumeUpRelease m =
     (if volumeState_direction m = Some VolumeUpPress
      then setState baseState (Some VolumeUpRelease)
             (if \<not> volumeState_repeating m then fire VolumeUp m else m)
      else setState baseState (Some VolumeUpRelease) (console_error VolumeUpRelease m))"
| "volumeState_process VolumeDownRelease m =
     (if volumeState_direction m = Some VolumeDownPress
      then setState baseState (Some VolumeDownRelease)
             (if \<not> volumeState_repeating m then fire VolumeDown m else m)
      else setState baseState (Some VolumeDownRelease) (console_error VolumeDownRelease m))"
| "volumeState_process ty m = m"

text \<open>
  \<^verbatim>\<open>wakeState.process\<close> hands every signal but the two releases to
  \<^verbatim>\<open>this.delegateState.process\<close>. Reading \<^verbatim>\<open>process\<close> from \<^verbatim>\<open>null\<close> throws; a
  \<^verbatim>\<open>delegateState\<close> that were \<^verbatim>\<open>wakeState\<close> itself would call itself until the stack
  is exhausted.
\<close>

definition wakeState_process :: "signal \<Rightarrow> machine \<Rightarrow> js_error + machine" where
  "wakeState_process ty m =
     (if ty = HomeRelease \<or> ty = SleepRelease then Inr (setState baseState (Some ty) m)
      else (case wakeState_delegateState m of
              None \<Rightarrow> Inl TypeError
            | Some baseState \<Rightarrow> Inr (baseState_process ty m)
            | Some homeState \<Rightarrow> Inr (homeState_process ty m)
            | Some sleepState \<Rightarrow> Inr (sleepState_process ty m)
            | Some volumeState \<Rightarrow> Inr (volumeState_process ty m)
            | Some wakeState \<Rightarrow> Inl RangeError))"

fun process_of :: "state_obj \<Rightarrow> signal \<Rightarrow> machine \<Rightarrow> js_error + machine" where
  "process_of baseState ty m = Inr (baseState_process ty m)"
| "process_of homeState ty m = Inr (homeState_process ty m)"
| "process_of sleepState ty m = Inr (sleepState_process ty m)"
| "process_of volumeState ty m = Inr (volumeState_process ty m)"
| "process_of wakeState ty m = wakeState_process ty m"

text \<open>The \<^verbatim>\<open>mozChromeEvent\<close> listener: \<^verbatim>\<open>state.process(type)\<close>.\<close>

definition process :: "signal \<Rightarrow> machine \<Rightarrow> js_error + machine" where
  "process ty m = (case state m of None \<Rightarrow> Inl TypeError | Some s \<Rightarrow> process_of s ty m)"

subsection \<open>Timers firing\<close>

text \<open>What each timer callback does when the timer service runs it.\<close>

fun run_callback :: "callback \<Rightarrow> machine \<Rightarrow> machine" where
  "run_callback HomeHold m = setState baseState None (fire HoldHome m)"
| "run_callback SleepHold m = setState baseState None (fire HoldSleep m)"
| "run_callback VolumeRepeat m = volumeState_repeat m"
| "run_callback (WakeHold ty) m =
     setState baseState ty
       (if ty = Some HomePress then fire HoldHome m
        else if ty = Some SleepPress then fire HoldSleep m
        else m)"

text \<open>
  The timer service, one millisecond at a time. \<open>due\<close> lists the handles of the armed
  timers whose deadline has been reached, in the order of arming. \<open>run_due\<close> runs them
  one after the other; a timer that an earlier callback has cleared is skipped, and a
  timer that has run is no longer armed. \<open>tick\<close> lets one millisecond pass and
  \<open>advance n\<close> lets \<open>n\<close> of them pass. The service is punctual: a callback runs when
  the clock reaches its deadline, before any signal that arrives later, and like
  \<^verbatim>\<open>process\<close> it runs to completion.
\<close>

definition due :: "machine \<Rightarrow> nat list" where
  "due m = map fst (filter (\<lambda>t. fst (snd t) \<le> now m) (pending m))"

fun run_due :: "nat list \<Rightarrow> machine \<Rightarrow> machine" where
  "run_due [] m = m"
| "run_due (i # is) m =
     (case find (\<lambda>t. fst t = i) (pending m) of
        None \<Rightarrow> run_due is m
      | Some t \<Rightarrow>
          run_due is (run_callback (snd (snd t)) (m\<lparr>pending := filter (\<lambda>t. fst t \<noteq> i) (pending m),
                                                    ran := ran m @ [i]\<rparr>)))"

definition tick :: "machine \<Rightarrow> machine" where
  "tick m = (let m1 = m\<lparr>now := Suc (now m)\<rparr> in run_due (due m1) m1)"

fun advance :: "nat \<Rightarrow> machine \<Rightarrow> machine" where
  "advance 0 m = m"
| "advance (Suc n) m = advance n (tick m)"

subsection \<open>Start of the module and runs of the machine\<close>

text \<open>
  The module before its last statement has run: \<^verbatim>\<open>state\<close> is \<^verbatim>\<open>undefined\<close>, the fields
  hold their initial values, no timer is armed. \<open>init\<close> is the module once it is
  loaded, after \<^verbatim>\<open>setState(baseState)\<close> (line 315).
\<close>

definition loading :: "bool \<Rightarrow> machine" where
  "loading scr =
     \<lparr>state = None, homeState_timer = None, sleepState_timer = None,
      volumeState_direction = None, volumeState_timer = None, volumeState_repeating = False,
      wakeState_timer = None, wakeState_delegateState = None, screenEnabled = scr,
      fired = [], console = [], now = 0, next_id = 1, pending = [], ran = []\<rparr>"

definition init :: "bool \<Rightarrow> machine" where
  "init scr = setState baseState None (loading scr)"

text \<open>
  What happens to the loaded module, in order: a raw signal arrives, time passes, or the
  display is switched on or off.
\<close>

datatype step = Signal signal | Wait nat | Screen bool

fun run :: "step list \<Rightarrow> machine \<Rightarrow> js_error + machine" where
  "run [] m = Inr m"
| "run (Signal ty # ss) m = (case process ty m of Inl e \<Rightarrow> Inl e | Inr m' \<Rightarrow> run ss m')"
| "run (Wait n # ss) m = run ss (advance n m)"
| "run (Screen b # ss) m = run ss (m\<lparr>screenEnabled := b\<rparr>)"

subsection \<open>The invariant of the loaded module\<close>

text \<open>
  \<open>timer_of s\<close> is the \<^verbatim>\<open>timer\<close> field of the state object \<open>s\<close> (\<^verbatim>\<open>baseState\<close> has
  none), and \<open>owns s m c\<close> says that \<open>c\<close> is the callback that entering \<open>s\<close> or
  \<^verbatim>\<open>volumeState.repeat\<close> hands to \<^verbatim>\<open>setTimeout\<close>; for \<^verbatim>\<open>wakeState\<close> the
  delegate recorded on entry goes with the captured type.

  \<open>wf m\<close> holds of the loaded module at rest, between two inputs: handles are positive and
  below the next one, a timer that has run has an older handle, and the armed timers are
  none in \<^verbatim>\<open>baseState\<close> and otherwise exactly the one whose handle the current state
  holds, with a deadline still ahead and a callback that has not run.
\<close>

fun timer_of :: "state_obj \<Rightarrow> machine \<Rightarrow> nat option" where
  "timer_of baseState m = None"
| "timer_of homeState m = homeState_timer m"
| "timer_of sleepState m = sleepState_timer m"
| "timer_of volumeState m = volumeState_timer m"
| "timer_of wakeState m = wakeState_timer m"

fun owns :: "state_obj \<Rightarrow> machine \<Rightarrow> callback \<Rightarrow> bool" where
  "owns baseState m c = False"
| "owns homeState m c = (c = HomeHold)"
| "owns sleepState m c = (c = SleepHold)"
| "owns volumeState m c = (c = VolumeRepeat)"
| "owns wakeState m c =
     (case c of
        WakeHold ty \<Rightarrow>
          wakeState_delegateState m = Some (if ty = Some HomePress then homeState else sleepState)
      | _ \<Rightarrow> False)"

definition wf :: "machine \<Rightarrow> bool" where
  "wf m =
     (0 < next_id m \<and> (\<forall>i \<in> set (ran m). i < next_id m) \<and>
      (case state m of
         None \<Rightarrow> False
       | Some s \<Rightarrow>
           (case pending m of
              [] \<Rightarrow> s = baseState
            | [t] \<Rightarrow>
                timer_of s m = Some (fst t) \<and> owns s m (snd (snd t)) \<and> 0 < fst t \<and>
                fst t < next_id m \<and> now m < fst (snd t) \<and> fst t \<notin> set (ran m)
            | _ \<Rightarrow> False)))"

text \<open>
  A handle that has been given out, is not armed and whose callback has not run: the
  timer was disarmed before it could fire.
\<close>

definition cancelled :: "nat \<Rightarrow> machine \<Rightarrow> bool" where
  "cancelled i m = (i < next_id m \<and> i \<notin> set (map fst (pending m)) \<and> i \<notin> set (ran m))"

subsection \<open>Signals without a case, and what a run shows\<close>

text \<open>
  \<open>homeState_case\<close> and \<open>sleepState_case\<close> list the signals that have a \<^verbatim>\<open>case\<close> in
  the \<^verbatim>\<open>switch\<close> of \<^verbatim>\<open>homeState.process\<close> and of \<^verbatim>\<open>sleepState.process\<close>;
  \<open>volumeState_break\<close> holds of the volume releases for which \<^verbatim>\<open>volumeState.process\<close>
  leaves its \<^verbatim>\<open>switch\<close> through \<^verbatim>\<open>break\<close>. \<open>unexpected m ty\<close> says that the method
  that handles \<open>ty\<close> in the current state, the delegate's when \<^verbatim>\<open>wakeState\<close> hands the
  signal on, has no case for it.
\<close>

fun homeState_case :: "signal \<Rightarrow> bool" where
  "homeState_case HomeRelease = True"
| "homeState_case SleepPress = True"
| "homeState_case VolumeUpPress = True"
| "homeState_case VolumeDownPress = True"
| "homeState_case ty = False"

fun sleepState_case :: "signal \<Rightarrow> bool" where
  "sleepState_case SleepRelease = True"
| "sleepState_case HomePress = True"
| "sleepState_case VolumeUpPress = True"
| "sleepState_case VolumeDownPress = True"
| "sleepState_case ty = False"

definition volumeState_break :: "machine \<Rightarrow> signal \<Rightarrow> bool" where
  "volumeState_break m ty =
     (ty = VolumeUpRelease \<and> volumeState_direction m \<noteq> Some VolumeUpPress \<or>
      ty = VolumeDownRelease \<and> volumeState_direction m \<noteq> Some VolumeDownPress)"

definition unexpected :: "machine \<Rightarrow> signal \<Rightarrow> bool" where
  "unexpected m ty =
     (case state m of
        None \<Rightarrow> False
      | Some baseState \<Rightarrow> False
      | Some homeState \<Rightarrow> \<not> homeState_case ty
      | Some sleepState \<Rightarrow> \<not> sleepState_case ty
      | Some volumeState \<Rightarrow> volumeState_break m ty
      | Some wakeState \<Rightarrow>
          ty \<noteq> HomeRelease \<and> ty \<noteq> SleepRelease \<and>
          (case wakeState_delegateState m of
             Some homeState \<Rightarrow> \<not> homeState_case ty
           | Some sleepState \<Rightarrow> \<not> sleepState_case ty
           | Some volumeState \<Rightarrow> volumeState_break m ty
           | _ \<Rightarrow> False))"

text \<open>
  What an observer sees of a run: the error thrown, or the final state, the events fired
  and the keys reported.
\<close>

definition outcome ::
  "step list \<Rightarrow> machine \<Rightarrow> js_error + (state_obj option \<times> event list \<times> signal list)" where
  "outcome ss m =
     (case run ss m of Inl e \<Rightarrow> Inl e | Inr m' \<Rightarrow> Inr (state m', fired m', console m'))"

section \<open>Properties\<close>

subsection \<open>The invariant and its consequences\<close>

lemma wf_base: "wf m \<Longrightarrow> state m = Some baseState \<Longrightarrow> pending m = []"
  by (auto simp: wf_def split: list.splits)

lemma wf_armed:
  assumes "wf m" "state m = Some s" "s \<noteq> baseState"
  obtains i d c where "pending m = [(i, d, c)]" "timer_of s m = Some i" "owns s m c"
    "0 < i" "i < next_id m" "now m < d" "i \<notin> set (ran m)"
  using assms by (auto simp: wf_def split: list.splits)

lemma wf_next_id: "wf m \<Longrightarrow> 0 < next_id m"
  by (simp add: wf_def)

lemma wf_state: "wf m \<Longrightarrow> \<exists>s. state m = Some s"
  by (auto simp: wf_def split: option.splits)

lemmas enter_exit_defs = setState_def homeState_enter_def homeState_exit_def sleepState_enter_def
  sleepState_exit_def volumeState_enter_def volumeState_exit_def wakeState_enter_def
  wakeState_exit_def setTimeout_def clearTimeout_def truthy_def Let_def
  HOLD_INTERVAL_def REPEAT_DELAY_def REPEAT_INTERVAL_def

lemma wf_setState:
  assumes "wf m"
  shows "wf (setState s ty m)"
proof -
  from assms obtain cur where cur: "state m = Some cur"
    using wf_state by blast
  have nid: "0 < next_id m" "\<forall>i \<in> set (ran m). i < next_id m"
    using assms by (simp_all add: wf_def)
  show ?thesis
  proof (cases "cur = baseState")
    case True
    with assms cur have "pending m = []" by (simp add: wf_base)
    with True cur nid show ?thesis
      by (cases s) (auto simp: wf_def enter_exit_defs)
  next
    case False
    from assms cur False obtain i d c where
      "pending m = [(i, d, c)]" "timer_of cur m = Some i" "0 < i"
      by (rule wf_armed)
    with cur nid show ?thesis
      by (cases cur; cases s) (auto simp: wf_def enter_exit_defs)
  qed
qed

lemma exit_of_fields [simp]:
  "fired (exit_of s m) = fired m" "console (exit_of s m) = console m"
  "now (exit_of s m) = now m" "next_id (exit_of s m) = next_id m"
  "ran (exit_of s m) = ran m" "screenEnabled (exit_of s m) = screenEnabled m"
  "state (exit_of s m) = state m"
  by (cases s; simp add: enter_exit_defs)+

lemma enter_of_fields [simp]:
  "fired (enter_of s ty m) = fired m" "console (enter_of s ty m) = console m"
  "now (enter_of s ty m) = now m" "ran (enter_of s ty m) = ran m"
  "screenEnabled (enter_of s ty m) = screenEnabled m" "state (enter_of s ty m) = state m"
  by (cases s; simp add: enter_exit_defs)+

lemma setState_fields [simp]:
  "fired (setState s ty m) = fired m" "console (setState s ty m) = console m"
  "now (setState s ty m) = now m" "ran (setState s ty m) = ran m"
  "screenEnabled (setState s ty m) = screenEnabled m" "state (setState s ty m) = Some s"
  by (simp_all add: setState_def Let_def split: option.splits)

lemma timer_of_upd [simp]:
  "timer_of s (fired_update f m) = timer_of s m"
  "timer_of s (console_update g m) = timer_of s m"
  "timer_of s (screenEnabled_update h m) = timer_of s m"
  "timer_of s (now_update k m) = timer_of s m"
  by (cases s; simp)+

lemma owns_upd [simp]:
  "owns s (fired_update f m) c = owns s m c"
  "owns s (console_update g m) c = owns s m c"
  "owns s (screenEnabled_update h m) c = owns s m c"
  "owns s (now_update k m) c = owns s m c"
  by (cases s; simp split: callback.splits)+

lemma wf_fire [simp]: "wf (fire ev m) = wf m"
  by (simp add: wf_def fire_def cong: option.case_cong list.case_cong)

lemma wf_console_error [simp]: "wf (console_error ty m) = wf m"
  by (simp add: wf_def console_error_def cong: option.case_cong list.case_cong)

lemma wf_screen [simp]: "wf (m\<lparr>screenEnabled := b\<rparr>) = wf m"
  by (simp add: wf_def cong: option.case_cong list.case_cong)

lemma wf_delegate:
  assumes "wf m" "state m = Some wakeState"
  shows "wakeState_delegateState m = Some homeState \<or> wakeState_delegateState m = Some sleepState"
proof -
  from assms obtain i :: nat and d :: nat and c where "owns wakeState m c"
    by (rule wf_armed) simp
  then show ?thesis by (cases c) (simp_all split: if_splits)
qed

subsection \<open>Time passing while at most one timer is armed\<close>

lemma tick_idle: "pending m = [] \<Longrightarrow> tick m = m\<lparr>now := Suc (now m)\<rparr>"
  by (simp add: tick_def due_def)

lemma tick_before:
  "pending m = [(i, d, c)] \<Longrightarrow> Suc (now m) < d \<Longrightarrow> tick m = m\<lparr>now := Suc (now m)\<rparr>"
  by (simp add: tick_def due_def)

lemma tick_fire:
  "pending m = [(i, d, c)] \<Longrightarrow> d \<le> Suc (now m) \<Longrightarrow>
   tick m = run_callback c (m\<lparr>now := Suc (now m), pending := [], ran := ran m @ [i]\<rparr>)"
  by (simp add: tick_def due_def)

lemma advance_idle: "pending m = [] \<Longrightarrow> advance n m = m\<lparr>now := now m + n\<rparr>"
  by (induction n arbitrary: m) (simp_all add: tick_idle)

lemma advance_before:
  "pending m = [(i, d, c)] \<Longrightarrow> now m + n < d \<Longrightarrow> advance n m = m\<lparr>now := now m + n\<rparr>"
  by (induction n arbitrary: m) (simp_all add: tick_before)

lemma advance_add: "advance (a + b) m = advance b (advance a m)"
  by (induction a arbitrary: m) simp_all

lemma advance_Suc_right: "advance (Suc n) m = tick (advance n m)"
  using advance_add [of n 1 m] by simp

lemma advance_fire:
  assumes "pending m = [(i, d, c)]" "now m < d"
  shows "advance (d - now m) m = run_callback c (m\<lparr>now := d, pending := [], ran := ran m @ [i]\<rparr>)"
proof -
  obtain k where k: "d = Suc (now m + k)"
    using assms(2) less_iff_Suc_add by auto
  have "advance (Suc k) m = tick (advance k m)"
    by (rule advance_Suc_right)
  also have "advance k m = m\<lparr>now := now m + k\<rparr>"
    using assms(1) k by (simp add: advance_before)
  also have "tick (m\<lparr>now := now m + k\<rparr>) =
      run_callback c (m\<lparr>now := d, pending := [], ran := ran m @ [i]\<rparr>)"
    using assms(1) k by (simp add: tick_fire)
  finally show ?thesis using k by simp
qed

subsection \<open>Every step keeps the invariant\<close>

lemma wf_process:
  assumes "wf m"
  shows "\<exists>m'. process ty m = Inr m' \<and> wf m'"
proof -
  from assms obtain cur where cur: "state m = Some cur"
    using wf_state by blast
  show ?thesis
  proof (cases cur)
    case baseState
    with cur assms show ?thesis by (cases ty) (simp_all add: process_def wf_setState)
  next
    case homeState
    with cur assms show ?thesis by (cases ty) (simp_all add: process_def wf_setState)
  next
    case sleepState
    with cur assms show ?thesis by (cases ty) (simp_all add: process_def wf_setState)
  next
    case volumeState
    with cur assms show ?thesis by (cases ty) (simp_all add: process_def wf_setState)
  next
    case wakeState
    with cur assms wf_delegate [of m] show ?thesis
      by (cases ty) (auto simp: process_def wakeState_process_def wf_setState)
  qed
qed

lemma wf_run_callback:
  assumes "wf m" "pending m = [(i, d, c)]" "now m < t"
  shows "wf (run_callback c (m\<lparr>now := t, pending := [], ran := ran m @ [i]\<rparr>))"
proof -
  from assms obtain cur where cur: "state m = Some cur"
    using wf_state by blast
  with assms have nb: "cur \<noteq> baseState" using wf_base by fastforce
  from assms(1) cur nb obtain i' d' c' where
    "pending m = [(i', d', c')]" "timer_of cur m = Some i'" "owns cur m c'"
    "0 < i'" "i' < next_id m" "i' \<notin> set (ran m)"
    by (rule wf_armed)
  moreover have "0 < next_id m" "\<forall>i \<in> set (ran m). i < next_id m"
    using assms by (simp_all add: wf_def)
  ultimately show ?thesis using assms(2,3) cur
    by (cases cur; cases c)
       (auto simp: wf_def enter_exit_defs fire_def volumeState_repeat_def split: if_splits)
qed

lemma wf_tick:
  assumes "wf m"
  shows "wf (tick m)"
proof (cases "pending m")
  case Nil
  with assms show ?thesis
    by (simp add: tick_idle wf_def cong: option.case_cong list.case_cong)
next
  case (Cons t ts)
  with assms have ts: "ts = []" by (auto simp: wf_def split: option.splits list.splits)
  obtain i d c where t: "t = (i, d, c)" by (cases t)
  show ?thesis
  proof (cases "Suc (now m) < d")
    case True
    with assms Cons ts t show ?thesis
      by (simp add: tick_before wf_def cong: option.case_cong)
  next
    case False
    with assms Cons ts t show ?thesis
      by (simp add: tick_fire wf_run_callback)
  qed
qed

lemma wf_advance: "wf m \<Longrightarrow> wf (advance n m)"
  by (induction n arbitrary: m) (simp_all add: wf_tick)

lemma wf_run: "wf m \<Longrightarrow> \<exists>m'. run ss m = Inr m' \<and> wf m'"
proof (induction ss arbitrary: m)
  case Nil
  then show ?case by simp
next
  case (Cons a ss)
  show ?case
  proof (cases a)
    case (Signal ty)
    from Cons.prems obtain m1 where "process ty m = Inr m1" "wf m1"
      using wf_process by blast
    with Cons.IH [of m1] Signal show ?thesis by simp
  next
    case (Wait n)
    with Cons.IH [of "advance n m"] Cons.prems show ?thesis by (simp add: wf_advance)
  next
    case (Screen b)
    with Cons.IH [of "m\<lparr>screenEnabled := b\<rparr>"] Cons.prems show ?thesis by simp
  qed
qed

lemma wf_init: "wf (init scr)"
  by (simp add: init_def loading_def setState_def wf_def)

text \<open>
  Hence whatever signals, waits and display changes the loaded module goes through, no
  call of \<^verbatim>\<open>process\<close> throws and the module is left in a state where the invariant
  holds: the theorems below, stated for such states, cover every state the module can be
  at rest in.
\<close>

lemma run_init: "\<exists>m. run ss (init scr) = Inr m \<and> wf m"
  using wf_init by (rule wf_run)

subsection \<open>Waiting, and runs in two parts\<close>

lemma advance_quiet:
  assumes "length (pending m) \<le> 1" "\<forall>t \<in> set (pending m). now m + n < fst (snd t)"
  shows "advance n m = m\<lparr>now := now m + n\<rparr>"
proof (cases "pending m")
  case Nil
  then show ?thesis by (rule advance_idle)
next
  case (Cons t ts)
  with assms(1) have ts: "ts = []" by simp
  obtain i d c where "t = (i, d, c)" by (cases t)
  with Cons ts assms(2) show ?thesis by (simp add: advance_before)
qed

lemma advance_past:
  assumes "pending m = [(i, d, c)]" "now m < d" "d \<le> now m + n"
  shows "advance n m =
         advance (now m + n - d) (run_callback c (m\<lparr>now := d, pending := [], ran := ran m @ [i]\<rparr>))"
proof -
  have "n = (d - now m) + (now m + n - d)"
    using assms(2,3) by simp
  then have "advance n m = advance (now m + n - d) (advance (d - now m) m)"
    using advance_add [of "d - now m" "now m + n - d" m] by simp
  with assms(1,2) show ?thesis by (simp add: advance_fire)
qed

lemma run_append:
  "run (xs @ ys) m = (case run xs m of Inl e \<Rightarrow> Inl e | Inr m' \<Rightarrow> run ys m')"
proof (induction xs arbitrary: m)
  case Nil
  then show ?case by simp
next
  case (Cons x xs)
  then show ?case by (cases x) (simp_all split: sum.splits)
qed

lemmas step_defs = process_def enter_exit_defs fire_def console_error_def

lemma init_base [simp]:
  "state (init scr) = Some baseState" "screenEnabled (init scr) = scr" "fired (init scr) = []"
  "console (init scr) = []"
  by (simp_all add: init_def loading_def)

subsection \<open>Autorepeat\<close>

lemma volume_repeat_once:
  assumes "pending m = [(i, d, VolumeRepeat)]" "now m < d"
  shows "advance (d - now m) m =
         m\<lparr>now := d, pending := [(next_id m, d + REPEAT_INTERVAL, VolumeRepeat)],
           ran := ran m @ [i], volumeState_repeating := True,
           fired := fired m @
             [if volumeState_direction m = Some VolumeUpPress then VolumeUp else VolumeDown],
           next_id := Suc (next_id m), volumeState_timer := Some (next_id m)\<rparr>"
  using assms
  by (simp add: advance_fire volumeState_repeat_def setTimeout_def fire_def Let_def)

lemma volume_repeats:
  assumes "state m = Some volumeState" "pending m = [(i, d, VolumeRepeat)]" "now m < d"
    "0 < next_id m"
  shows "\<exists>j. state (advance (d - now m + k * REPEAT_INTERVAL) m) = Some volumeState \<and>
           volumeState_direction (advance (d - now m + k * REPEAT_INTERVAL) m) =
             volumeState_direction m \<and>
           volumeState_repeating (advance (d - now m + k * REPEAT_INTERVAL) m) \<and>
           fired (advance (d - now m + k * REPEAT_INTERVAL) m) =
             fired m @ replicate (Suc k)
               (if volumeState_direction m = Some VolumeUpPress then VolumeUp else VolumeDown) \<and>
           console (advance (d - now m + k * REPEAT_INTERVAL) m) = console m \<and>
           now (advance (d - now m + k * REPEAT_INTERVAL) m) = d + k * REPEAT_INTERVAL \<and>
           pending (advance (d - now m + k * REPEAT_INTERVAL) m) =
             [(j, d + Suc k * REPEAT_INTERVAL, VolumeRepeat)] \<and>
           volumeState_timer (advance (d - now m + k * REPEAT_INTERVAL) m) = Some j \<and> 0 < j \<and>
           j < next_id (advance (d - now m + k * REPEAT_INTERVAL) m)"
proof (induction k)
  case 0
  show ?case using assms by (simp add: volume_repeat_once)
next
  case (Suc k)
  define m' where "m' = advance (d - now m + k * REPEAT_INTERVAL) m"
  from Suc obtain j where j:
    "state m' = Some volumeState" "volumeState_direction m' = volumeState_direction m"
    "volumeState_repeating m'"
    "fired m' = fired m @ replicate (Suc k)
       (if volumeState_direction m = Some VolumeUpPress then VolumeUp else VolumeDown)"
    "console m' = console m"
    "now m' = d + k * REPEAT_INTERVAL"
    "pending m' = [(j, d + Suc k * REPEAT_INTERVAL, VolumeRepeat)]"
    "volumeState_timer m' = Some j" "0 < j" "j < next_id m'"
    unfolding m'_def by blast
  have "advance (d - now m + Suc k * REPEAT_INTERVAL) m = advance REPEAT_INTERVAL m'"
    using advance_add [of "d - now m + k * REPEAT_INTERVAL" REPEAT_INTERVAL m]
    by (simp add: m'_def ac_simps)
  also have "REPEAT_INTERVAL = (d + Suc k * REPEAT_INTERVAL) - now m'"
    using j(6) by simp
  also have "advance \<dots> m' =
      m'\<lparr>now := d + Suc k * REPEAT_INTERVAL,
         pending := [(next_id m', d + Suc k * REPEAT_INTERVAL + REPEAT_INTERVAL, VolumeRepeat)],
         ran := ran m' @ [j], volumeState_repeating := True,
         fired := fired m' @
           [if volumeState_direction m' = Some VolumeUpPress then VolumeUp else VolumeDown],
         next_id := Suc (next_id m'), volumeState_timer := Some (next_id m')\<rparr>"
    using j(6,7) by (intro volume_repeat_once) (simp_all add: REPEAT_INTERVAL_def)
  finally show ?case
    using j by (simp add: replicate_append_same)
qed

lemma volume_up_held:
  assumes "wf m" "state m = Some baseState" "r < REPEAT_INTERVAL"
  shows "\<exists>m2 j d. run [Signal VolumeUpPress, Wait (REPEAT_DELAY + k * REPEAT_INTERVAL + r)] m = Inr m2 \<and>
           wf m2 \<and> state m2 = Some volumeState \<and>
           volumeState_direction m2 = Some VolumeUpPress \<and> volumeState_repeating m2 \<and>
           fired m2 = fired m @ replicate (Suc k) VolumeUp \<and> console m2 = console m \<and>
           pending m2 = [(j, d, VolumeRepeat)] \<and> volumeState_timer m2 = Some j \<and> 0 < j"
proof -
  have b: "pending m = []" "0 < next_id m"
    using assms by (simp_all add: wf_base wf_next_id)
  define m1 where "m1 = setState volumeState (Some VolumeUpPress) m"
  have p1: "process VolumeUpPress m = Inr m1"
    using assms(2) by (simp add: process_def m1_def)
  have m1: "state m1 = Some volumeState"
    "pending m1 = [(next_id m, now m + REPEAT_DELAY, VolumeRepeat)]"
    "now m1 = now m" "0 < next_id m1" "volumeState_direction m1 = Some VolumeUpPress"
    "fired m1 = fired m" "console m1 = console m"
    using assms(2) b by (simp_all add: m1_def enter_exit_defs)
  define m' where "m' = advance (REPEAT_DELAY + k * REPEAT_INTERVAL) m1"
  have "now m1 < now m + REPEAT_DELAY"
    using m1(3) by (simp add: REPEAT_DELAY_def)
  from volume_repeats [OF m1(1,2) this m1(4), of k] obtain j where j:
    "state m' = Some volumeState" "volumeState_direction m' = Some VolumeUpPress"
    "volumeState_repeating m'" "fired m' = fired m @ replicate (Suc k) VolumeUp"
    "console m' = console m"
    "now m' = now m + REPEAT_DELAY + k * REPEAT_INTERVAL"
    "pending m' = [(j, now m + REPEAT_DELAY + Suc k * REPEAT_INTERVAL, VolumeRepeat)]"
    "volumeState_timer m' = Some j" "0 < j"
    using m1(3,5,6,7) unfolding m'_def by auto
  have "advance (REPEAT_DELAY + k * REPEAT_INTERVAL + r) m1 = advance r m'"
    unfolding m'_def by (rule advance_add)
  also have "\<dots> = m'\<lparr>now := now m' + r\<rparr>"
    using j(6,7) assms(3) by (intro advance_quiet) simp_all
  finally have run2: "run [Signal VolumeUpPress, Wait (REPEAT_DELAY + k * REPEAT_INTERVAL + r)] m =
      Inr (m'\<lparr>now := now m' + r\<rparr>)"
    using p1 by simp
  moreover have "wf (m'\<lparr>now := now m' + r\<rparr>)"
    using wf_run [OF assms(1), of "[Signal VolumeUpPress, Wait (REPEAT_DELAY + k * REPEAT_INTERVAL + r)]"]
      run2 by simp
  ultimately show ?thesis using j by simp
qed

subsection \<open>A disarmed timer never runs\<close>

lemma cancelled_upd [simp]:
  "cancelled i (fire ev m) = cancelled i m"
  "cancelled i (console_error ty m) = cancelled i m"
  "cancelled i (m\<lparr>screenEnabled := b\<rparr>) = cancelled i m"
  "cancelled i (m\<lparr>now := t\<rparr>) = cancelled i m"
  by (simp_all add: cancelled_def fire_def console_error_def)

lemma exit_of_pending: "set (pending (exit_of cur m)) \<subseteq> set (pending m)"
  by (cases cur) (auto simp: enter_exit_defs)

lemma cancelled_exit_of: "cancelled i m \<Longrightarrow> cancelled i (exit_of cur m)"
  using exit_of_pending [of cur m] by (auto simp: cancelled_def)

lemma cancelled_state_upd [simp]: "cancelled i (m\<lparr>state := s\<rparr>) = cancelled i m"
  by (simp add: cancelled_def)

lemma cancelled_enter_of: "cancelled i m \<Longrightarrow> cancelled i (enter_of s ty m)"
  by (cases s) (auto simp: cancelled_def enter_exit_defs)

lemma cancelled_setState: "cancelled i m \<Longrightarrow> cancelled i (setState s ty m)"
  by (simp add: setState_def Let_def cancelled_exit_of cancelled_enter_of split: option.splits)

lemma cancelled_process:
  assumes "cancelled i m" "process ty m = Inr m'"
  shows "cancelled i m'"
proof -
  have base: "cancelled i (baseState_process ty m)" for ty
    using assms(1) by (cases ty) (simp_all add: cancelled_setState)
  have home: "cancelled i (homeState_process ty m)" for ty
    using assms(1) by (cases ty) (simp_all add: cancelled_setState)
  have sleep: "cancelled i (sleepState_process ty m)" for ty
    using assms(1) by (cases ty) (simp_all add: cancelled_setState)
  have volume: "cancelled i (volumeState_process ty m)" for ty
    using assms(1) by (cases ty) (simp_all add: cancelled_setState)
  from assms(2) obtain cur where cur: "state m = Some cur"
    by (auto simp: process_def split: option.splits)
  show ?thesis
  proof (cases cur)
    case wakeState
    with cur assms base home sleep volume show ?thesis
      by (auto simp: process_def wakeState_process_def cancelled_setState
          split: if_splits option.splits state_obj.splits)
  qed (use cur assms(2) base home sleep volume in \<open>auto simp: process_def\<close>)
qed

lemma cancelled_run_callback:
  assumes "cancelled i m" "pending m = [(j, d, c)]"
  shows "cancelled i (run_callback c (m\<lparr>now := t, pending := [], ran := ran m @ [j]\<rparr>))"
proof -
  have c0: "cancelled i (m\<lparr>now := t, pending := [], ran := ran m @ [j]\<rparr>)"
    using assms by (auto simp: cancelled_def)
  then show ?thesis
  proof (cases c)
    case VolumeRepeat
    with c0 show ?thesis
      by (auto simp: volumeState_repeat_def setTimeout_def Let_def fire_def cancelled_def)
  qed (simp_all add: cancelled_setState)
qed

lemma cancelled_tick:
  assumes "wf m" "cancelled i m"
  shows "cancelled i (tick m)"
proof (cases "pending m")
  case Nil
  with assms show ?thesis by (simp add: tick_idle)
next
  case (Cons t ts)
  with assms have ts: "ts = []" by (auto simp: wf_def split: option.splits list.splits)
  obtain j d c where t: "t = (j, d, c)" by (cases t)
  show ?thesis
  proof (cases "Suc (now m) < d")
    case True
    with assms Cons ts t show ?thesis by (simp add: tick_before)
  next
    case False
    with assms Cons ts t show ?thesis by (simp add: tick_fire cancelled_run_callback)
  qed
qed

lemma cancelled_advance: "wf m \<Longrightarrow> cancelled i m \<Longrightarrow> cancelled i (advance n m)"
  by (induction n arbitrary: m) (simp_all add: wf_tick cancelled_tick)

lemma cancelled_run:
  "wf m \<Longrightarrow> cancelled i m \<Longrightarrow> run ss m = Inr m' \<Longrightarrow> cancelled i m'"
proof (induction ss arbitrary: m)
  case Nil
  then show ?case by simp
next
  case (Cons a ss)
  show ?case
  proof (cases a)
    case (Signal ty)
    from Cons.prems(1) obtain m1 where m1: "process ty m = Inr m1" "wf m1"
      using wf_process by blast
    with Cons.prems(2) have "cancelled i m1" by (simp add: cancelled_process)
    with Cons.IH [of m1] m1 Cons.prems(3) Signal show ?thesis by simp
  next
    case (Wait n)
    with Cons.IH [of "advance n m"] Cons.prems show ?thesis
      by (simp add: wf_advance cancelled_advance)
  next
    case (Screen b)
    with Cons.IH [of "m\<lparr>screenEnabled := b\<rparr>"] Cons.prems show ?thesis by simp
  qed
qed

lemma pending_upd [simp]:
  "pending (fire ev m) = pending m" "pending (console_error ty m) = pending m"
  "state (fire ev m) = state m" "state (console_error ty m) = state m"
  "next_id (fire ev m) = next_id m" "next_id (console_error ty m) = next_id m"
  "fired (console_error ty m) = fired m" "fired (fire ev m) = fired m @ [ev]"
  "console (fire ev m) = console m" "console (console_error ty m) = console m @ [ty]"
  by (simp_all add: fire_def console_error_def)

lemma setState_cancels:
  assumes "wf m" "state m = Some cur" "cur \<noteq> baseState" "pending m = [t]"
  shows "t \<notin> set (pending (setState s ty m))"
    "run ss (setState s ty m) = Inr m' \<Longrightarrow> fst t \<notin> set (ran m')"
    "s \<noteq> cur \<Longrightarrow> timer_of cur (setState s ty m) = None"
    "length (pending (setState s ty m)) \<le> 1"
    "\<forall>t' \<in> set (pending (setState s ty m)). fst t' = next_id m"
    "s = baseState \<Longrightarrow> pending (setState s ty m) = []"
proof -
  from assms(1-3) obtain i d c where t:
    "pending m = [(i, d, c)]" "timer_of cur m = Some i" "0 < i" "i < next_id m"
    "i \<notin> set (ran m)"
    by (rule wf_armed)
  have shape: "(i, d, c) \<notin> set (pending (setState s ty m)) \<and>
      i \<notin> set (map fst (pending (setState s ty m))) \<and>
      (s \<noteq> cur \<longrightarrow> timer_of cur (setState s ty m) = None) \<and>
      length (pending (setState s ty m)) \<le> 1 \<and>
      (\<forall>t' \<in> set (pending (setState s ty m)). fst t' = next_id m) \<and>
      (s = baseState \<longrightarrow> pending (setState s ty m) = [])"
    using assms(2,3) t by (cases cur; cases s) (simp_all add: enter_exit_defs)
  have "next_id m \<le> next_id (setState s ty m)"
    using assms(2) by (cases cur; cases s) (simp_all add: enter_exit_defs)
  with shape t(4,5) have c: "cancelled i (setState s ty m)"
    unfolding cancelled_def by auto
  have wf': "wf (setState s ty m)"
    using assms(1) by (rule wf_setState)
  show "run ss (setState s ty m) = Inr m' \<Longrightarrow> fst t \<notin> set (ran m')"
    using cancelled_run [OF wf' c, of ss m'] t(1) assms(4) by (simp add: cancelled_def)
  from shape t(1) assms(4) show "t \<notin> set (pending (setState s ty m))"
    "s \<noteq> cur \<Longrightarrow> timer_of cur (setState s ty m) = None"
    "length (pending (setState s ty m)) \<le> 1"
    "\<forall>t' \<in> set (pending (setState s ty m)). fst t' = next_id m"
    "s = baseState \<Longrightarrow> pending (setState s ty m) = []"
    by simp_all
qed

subsection \<open>The forced return to \<^verbatim>\<open>baseState\<close>\<close>

lemma reset_to_base:
  assumes "wf m" "state m = Some cur" "m0 = m \<or> m0 = console_error k m"
  shows "pending (setState baseState ty m0) = [] \<and> timer_of cur (setState baseState ty m0) = None"
proof -
  from assms(3) have "wf m0 = wf m" "state m0 = state m" "pending m0 = pending m"
    by auto
  moreover from assms(3) have "timer_of cur m0 = timer_of cur m"
    by (auto simp: console_error_def)
  ultimately have m0: "wf m0" "state m0 = Some cur" "pending m0 = pending m"
    "timer_of cur m0 = timer_of cur m"
    using assms(1,2) by simp_all
  show ?thesis
  proof (cases "cur = baseState")
    case True
    with m0 show ?thesis
      by (simp add: wf_base setState_def)
  next
    case False
    from m0(1,2) False obtain i d c where "pending m0 = [(i, d, c)]" "timer_of cur m0 = Some i"
      "0 < i"
      by (rule wf_armed)
    with m0(2) False show ?thesis
      by (cases cur) (simp_all add: enter_exit_defs)
  qed
qed

section \<open>The claims\<close>

subsection \<open>C1: other signals in Volume\<close>

text \<open>
  Claim C1 says that in \<^verbatim>\<open>volumeState\<close> a release of the direction opposite to the
  recorded one is ignored and the machine stays in \<^verbatim>\<open>volumeState\<close>. The code does
  otherwise: with Volume-Down held (display on, module just loaded), a VolumeUp-Release
  is reported through \<^verbatim>\<open>console.error\<close> and the machine ends in \<^verbatim>\<open>baseState\<close>.
\<close>

theorem volume_opposite_release_counterexample:
  "outcome [Signal VolumeDownPress] (init True) = Inr (Some volumeState, [], []) \<and>
   map_sum id volumeState_direction (run [Signal VolumeDownPress] (init True)) =
     Inr (Some VolumeDownPress) \<and>
   outcome [Signal VolumeDownPress, Signal VolumeUpRelease] (init True) =
     Inr (Some baseState, [], [VolumeUpRelease]) \<and>
   outcome [Signal VolumeDownPress, Signal VolumeUpRelease] (init True) \<noteq>
     Inr (Some volumeState, [], [])"
  by (simp add: outcome_def process_def init_def loading_def enter_exit_defs console_error_def)

text \<open>
  Claim C1 as amended. In \<^verbatim>\<open>volumeState\<close> the signals that fall to the \<^verbatim>\<open>default\<close>
  branch (Home-Release, Sleep-Release, VolumeUp-Press, VolumeDown-Press) are ignored: the
  machine is left exactly as it was, so no event is fired and the state stays
  \<^verbatim>\<open>volumeState\<close>. A volume release whose direction is not the recorded one fires no
  event either, but it is reported through \<^verbatim>\<open>console.error\<close>, the autorepeat timer is
  disarmed and the machine returns to \<^verbatim>\<open>baseState\<close>.
\<close>

theorem volume_other_signals:
  assumes "wf m" "state m = Some volumeState"
  shows "(ty \<in> {HomeRelease, SleepRelease, VolumeUpPress, VolumeDownPress} \<longrightarrow>
            process ty m = Inr m) \<and>
         (ty = VolumeUpRelease \<and> volumeState_direction m \<noteq> Some VolumeUpPress \<or>
          ty = VolumeDownRelease \<and> volumeState_direction m \<noteq> Some VolumeDownPress \<longrightarrow>
            (\<exists>m'. process ty m = Inr m' \<and> fired m' = fired m \<and>
               console m' = console m @ [ty] \<and> state m' = Some baseState \<and>
               pending m' = [] \<and> volumeState_timer m' = None \<and>
               (\<forall>n. fired (advance n m') = fired m)))"
proof -
  have r: "pending (setState baseState (Some ty) (console_error ty m)) = [] \<and>
      timer_of volumeState (setState baseState (Some ty) (console_error ty m)) = None"
    using reset_to_base [OF assms, of "console_error ty m" ty "Some ty"] by simp
  with assms(2) show ?thesis
    by (cases ty) (auto simp: process_def advance_idle)
qed

theorem volume_other_signals_witness:
  "wf (setState volumeState (Some VolumeDownPress) (init True)) \<and>
   state (setState volumeState (Some VolumeDownPress) (init True)) = Some volumeState \<and>
   SleepRelease \<in> {HomeRelease, SleepRelease, VolumeUpPress, VolumeDownPress} \<and>
   process SleepRelease (setState volumeState (Some VolumeDownPress) (init True)) =
     Inr (setState volumeState (Some VolumeDownPress) (init True)) \<and>
   volumeState_direction (setState volumeState (Some VolumeDownPress) (init True)) \<noteq>
     Some VolumeUpPress \<and>
   (\<exists>m'. process VolumeUpRelease (setState volumeState (Some VolumeDownPress) (init True)) = Inr m' \<and>
      fired m' = [] \<and> console m' = [VolumeUpRelease] \<and> state m' = Some baseState \<and>
      pending m' = [] \<and> volumeState_timer m' = None \<and>
      (\<forall>n. fired (advance n m') = []))"
proof -
  have h: "wf (setState volumeState (Some VolumeDownPress) (init True))"
    "state (setState volumeState (Some VolumeDownPress) (init True)) = Some volumeState"
    by (simp_all add: wf_init wf_setState)
  have d: "volumeState_direction (setState volumeState (Some VolumeDownPress) (init True)) \<noteq>
      Some VolumeUpPress"
    by (simp add: init_def loading_def enter_exit_defs)
  from volume_other_signals [OF h, of SleepRelease] volume_other_signals [OF h, of VolumeUpRelease]
    h d show ?thesis
    by simp
qed

subsection \<open>C2: leaving a state cancels its timer\<close>

text \<open>
  Claim C2. Let the module be at rest in \<^verbatim>\<open>homeState\<close>, \<^verbatim>\<open>sleepState\<close>,
  \<^verbatim>\<open>volumeState\<close> or \<^verbatim>\<open>wakeState\<close>; exactly one timer is armed then, the one whose
  handle the state holds. Whenever \<^verbatim>\<open>setState\<close> leaves that state, the exit disarms the
  timer: it is no longer armed afterwards, its handle is never among the timers that have
  run, whatever signals and waits follow, and the state left behind holds no handle. The
  state entered arms at most one timer, a fresh one; when it is \<^verbatim>\<open>baseState\<close>, no
  timer is armed and no event is fired however long one waits. The same holds for every
  raw signal that changes the machine: the timer armed before is disarmed and never runs.
\<close>

theorem exit_cancels_timer:
  assumes "wf m" "state m = Some cur" "cur \<noteq> baseState"
  shows "\<exists>t. pending m = [t] \<and> timer_of cur m = Some (fst t) \<and>
           t \<notin> set (pending (setState s ty m)) \<and>
           (\<forall>ss m'. run ss (setState s ty m) = Inr m' \<longrightarrow> fst t \<notin> set (ran m')) \<and>
           (s \<noteq> cur \<longrightarrow> timer_of cur (setState s ty m) = None) \<and>
           length (pending (setState s ty m)) \<le> 1 \<and>
           (\<forall>t' \<in> set (pending (setState s ty m)). fst t' = next_id m) \<and>
           (s = baseState \<longrightarrow>
              pending (setState s ty m) = [] \<and>
              (\<forall>n. fired (advance n (setState s ty m)) = fired m)) \<and>
           (\<forall>sig m1. process sig m = Inr m1 \<longrightarrow>
              m1 = m \<or>
              (t \<notin> set (pending m1) \<and> length (pending m1) \<le> 1 \<and>
               (\<forall>ss m'. run ss m1 = Inr m' \<longrightarrow> fst t \<notin> set (ran m'))))"
proof -
  from assms obtain i d c where t: "pending m = [(i, d, c)]" "timer_of cur m = Some i"
    by (rule wf_armed)
  note a = assms(1) assms(2) assms(3) t(1)
  note c0 = setState_cancels [OF a]
  have quiet: "fired (advance n (setState s ty m)) = fired m" if "s = baseState" for n
    using c0(6) that by (simp add: advance_idle)
  define gone where "gone x \<longleftrightarrow>
      (i, d, c) \<notin> set (pending x) \<and> length (pending x) \<le> 1 \<and>
      (\<forall>ss m'. run ss x = Inr m' \<longrightarrow> i \<notin> set (ran m'))" for x
  have moved: "gone (setState s' ty' m0)"
    if "wf m0" "state m0 = Some cur" "pending m0 = [(i, d, c)]" for s' ty' m0
    using setState_cancels(1,2,4) [OF that(1,2) assms(3) that(3)] by (auto simp: gone_def)
  have m: "gone (setState s' ty' m)" "gone (setState s' ty' (fire ev m))"
    "gone (setState s' ty' (console_error k m))" for s' ty' ev k
    using a by (simp_all add: moved)
  have sig: "m1 = m \<or> gone m1" if p: "process sig m = Inr m1" for sig m1
  proof (cases cur)
    case baseState
    with assms(3) show ?thesis by simp
  next
    case homeState
    with p assms(2) m show ?thesis by (cases sig) (auto simp: process_def)
  next
    case sleepState
    with p assms(2) m show ?thesis by (cases sig) (auto simp: process_def)
  next
    case volumeState
    with p assms(2) m show ?thesis by (cases sig) (auto simp: process_def)
  next
    case wakeState
    with p assms(1,2) m wf_delegate [of m] show ?thesis
      by (cases sig) (auto simp: process_def wakeState_process_def)
  qed
  from t c0 quiet sig show ?thesis unfolding gone_def by simp
qed

theorem exit_cancels_timer_witness:
  "wf (setState homeState (Some HomePress) (init True)) \<and>
   state (setState homeState (Some HomePress) (init True)) = Some homeState \<and>
   homeState \<noteq> baseState \<and>
   pending (setState homeState (Some HomePress) (init True)) = [(1, 1500, HomeHold)] \<and>
   (1, 1500, HomeHold) \<notin>
     set (pending (setState baseState (Some HomeRelease)
            (setState homeState (Some HomePress) (init True)))) \<and>
   1 \<notin> set (ran (advance 5000 (setState baseState (Some HomeRelease)
                 (setState homeState (Some HomePress) (init True))))) \<and>
   length (pending (setState baseState (Some HomeRelease)
                 (setState homeState (Some HomePress) (init True)))) \<le> 1 \<and>
   (\<forall>n. fired (advance n (setState baseState (Some HomeRelease)
                 (setState homeState (Some HomePress) (init True)))) = [])"
proof -
  have h: "wf (setState homeState (Some HomePress) (init True))"
    "state (setState homeState (Some HomePress) (init True)) = Some homeState"
    "homeState \<noteq> baseState"
    by (simp_all add: wf_init wf_setState)
  have p: "pending (setState homeState (Some HomePress) (init True)) = [(1, 1500, HomeHold)]"
    by (simp add: init_def loading_def enter_exit_defs)
  have r: "run [Wait 5000] (setState baseState (Some HomeRelease)
      (setState homeState (Some HomePress) (init True))) =
      Inr (advance 5000 (setState baseState (Some HomeRelease)
        (setState homeState (Some HomePress) (init True))))"
    by simp
  from exit_cancels_timer [OF h, of baseState "Some HomeRelease"] p have c:
    "(1, 1500, HomeHold) \<notin>
       set (pending (setState baseState (Some HomeRelease)
              (setState homeState (Some HomePress) (init True))))"
    "\<forall>ss m'. run ss (setState baseState (Some HomeRelease)
         (setState homeState (Some HomePress) (init True))) = Inr m' \<longrightarrow>
       1 \<notin> set (ran m')"
    "length (pending (setState baseState (Some HomeRelease)
       (setState homeState (Some HomePress) (init True)))) \<le> 1"
    "\<forall>n. fired (advance n (setState baseState (Some HomeRelease)
       (setState homeState (Some HomePress) (init True)))) = []"
    by simp_all
  from c(2) r have "1 \<notin> set (ran (advance 5000 (setState baseState (Some HomeRelease)
      (setState homeState (Some HomePress) (init True)))))"
    by blast
  with h p c(1,3,4) show ?thesis
    by blast
qed

subsection \<open>C3: unexpected signals\<close>

text \<open>
  Claim C3. \<open>unexpected m ty\<close> says that the \<^verbatim>\<open>process\<close> method that handles \<open>ty\<close>
  in the current state has no case for it: the \<^verbatim>\<open>switch\<close> of \<^verbatim>\<open>homeState\<close> or
  \<^verbatim>\<open>sleepState\<close> (also when \<^verbatim>\<open>wakeState\<close> delegates to it) has none, or
  \<^verbatim>\<open>volumeState\<close> leaves its \<^verbatim>\<open>switch\<close> through \<^verbatim>\<open>break\<close>. Processing a raw signal
  never throws. An unexpected signal is reported through \<^verbatim>\<open>console.error\<close>, fires no
  event, then or later, and leaves the machine in \<^verbatim>\<open>baseState\<close> with no timer armed
  and the timer field of the abandoned state cleared. No other signal is reported.
\<close>

theorem unexpected_signal_resets:
  assumes "wf m" "state m = Some cur"
  shows "\<exists>m'. process ty m = Inr m' \<and>
           (unexpected m ty \<longrightarrow>
              console m' = console m @ [ty] \<and> state m' = Some baseState \<and>
              fired m' = fired m \<and> pending m' = [] \<and> timer_of cur m' = None \<and>
              (\<forall>n. fired (advance n m') = fired m)) \<and>
           (\<not> unexpected m ty \<longrightarrow> console m' = console m)"
proof -
  note r = reset_to_base [OF assms, of "console_error ty m" ty "Some ty"]
  have err: "console m' = console m @ [ty] \<and> state m' = Some baseState \<and>
      fired m' = fired m \<and> pending m' = [] \<and> timer_of cur m' = None \<and>
      (\<forall>n. fired (advance n m') = fired m)"
    if "m' = setState baseState (Some ty) (console_error ty m)" for m'
    using r that by (simp add: advance_idle)
  show ?thesis
  proof (cases cur)
    case baseState
    with assms(2) show ?thesis by (cases ty) (simp_all add: process_def unexpected_def)
  next
    case homeState
    with assms(2) err show ?thesis by (cases ty) (simp_all add: process_def unexpected_def)
  next
    case sleepState
    with assms(2) err show ?thesis by (cases ty) (simp_all add: process_def unexpected_def)
  next
    case volumeState
    with assms(2) err show ?thesis
      by (cases ty) (simp_all add: process_def unexpected_def volumeState_break_def)
  next
    case wakeState
    with assms err wf_delegate [of m] show ?thesis
      by (cases ty) (auto simp: process_def wakeState_process_def unexpected_def)
  qed
qed

theorem unexpected_signal_resets_witness:
  "wf (setState homeState (Some HomePress) (init True)) \<and>
   state (setState homeState (Some HomePress) (init True)) = Some homeState \<and>
   unexpected (setState homeState (Some HomePress) (init True)) HomePress \<and>
   (\<exists>m'. process HomePress (setState homeState (Some HomePress) (init True)) = Inr m' \<and>
      console m' = [HomePress] \<and> state m' = Some baseState \<and> fired m' = [] \<and>
      pending m' = [] \<and> homeState_timer m' = None \<and>
      (\<forall>n. fired (advance n m') = [])) \<and>
   \<not> unexpected (setState homeState (Some HomePress) (init True)) HomeRelease \<and>
   (\<exists>m'. process HomeRelease (setState homeState (Some HomePress) (init True)) = Inr m' \<and>
      console m' = [])"
proof -
  have h: "wf (setState homeState (Some HomePress) (init True))"
    "state (setState homeState (Some HomePress) (init True)) = Some homeState"
    by (simp_all add: wf_init wf_setState)
  have u: "unexpected (setState homeState (Some HomePress) (init True)) HomePress"
    "\<not> unexpected (setState homeState (Some HomePress) (init True)) HomeRelease"
    by (simp_all add: unexpected_def)
  from unexpected_signal_resets [OF h, of HomePress] unexpected_signal_resets [OF h, of HomeRelease]
    h u show ?thesis
    by simp
qed

subsection \<open>C4: waking with Sleep, then holding or releasing\<close>

text \<open>
  Claim C4. In \<^verbatim>\<open>baseState\<close> with the display off, a Sleep-Press fires exactly one
  \<open>Wake\<close> event at once and enters \<^verbatim>\<open>wakeState\<close> standing in for \<^verbatim>\<open>sleepState\<close>.
  Held for \<open>HOLD_INTERVAL\<close> milliseconds or more without a release, exactly one
  \<open>HoldSleep\<close> follows and the machine is back in \<^verbatim>\<open>baseState\<close>. Released before
  \<open>HOLD_INTERVAL\<close>, neither \<open>Sleep\<close> nor \<open>HoldSleep\<close> is fired, then or later: the
  \<open>Wake\<close> stays the only event.
\<close>

theorem wake_then_hold:
  assumes "wf m" "state m = Some baseState" "\<not> screenEnabled m"
  shows "(\<exists>m1. run [Signal SleepPress] m = Inr m1 \<and> fired m1 = fired m @ [Wake] \<and>
            state m1 = Some wakeState \<and> wakeState_delegateState m1 = Some sleepState) \<and>
         (\<forall>n. HOLD_INTERVAL \<le> n \<longrightarrow>
            (\<exists>m2. run [Signal SleepPress, Wait n] m = Inr m2 \<and>
               fired m2 = fired m @ [Wake, HoldSleep] \<and> state m2 = Some baseState)) \<and>
         (\<forall>n k. n < HOLD_INTERVAL \<longrightarrow>
            (\<exists>m3. run [Signal SleepPress, Wait n, Signal SleepRelease, Wait k] m = Inr m3 \<and>
               fired m3 = fired m @ [Wake] \<and> state m3 = Some baseState))"
proof -
  have b: "pending m = []" "0 < next_id m"
    using assms by (simp_all add: wf_base wf_next_id)
  define m1 where "m1 = setState wakeState (Some SleepPress) (fire Wake m)"
  have p1: "process SleepPress m = Inr m1"
    using assms by (simp add: process_def m1_def)
  have m1: "pending m1 = [(next_id m, now m + HOLD_INTERVAL, WakeHold (Some SleepPress))]"
    "now m1 = now m" "fired m1 = fired m @ [Wake]" "state m1 = Some wakeState"
    "wakeState_delegateState m1 = Some sleepState" "wakeState_timer m1 = Some (next_id m)"
    using assms(2) b by (simp_all add: m1_def step_defs)
  have hold: "\<exists>m2. run [Signal SleepPress, Wait n] m = Inr m2 \<and>
      fired m2 = fired m @ [Wake, HoldSleep] \<and> state m2 = Some baseState"
    if "HOLD_INTERVAL \<le> n" for n
  proof -
    have "advance n m1 = advance (now m1 + n - (now m + HOLD_INTERVAL))
        (run_callback (WakeHold (Some SleepPress))
           (m1\<lparr>now := now m + HOLD_INTERVAL, pending := [], ran := ran m1 @ [next_id m]\<rparr>))"
      using that m1(1,2) by (intro advance_past) (simp_all add: HOLD_INTERVAL_def)
    then show ?thesis
      using p1 m1 b by (simp add: step_defs advance_idle)
  qed
  have tap: "\<exists>m3. run [Signal SleepPress, Wait n, Signal SleepRelease, Wait k] m = Inr m3 \<and>
      fired m3 = fired m @ [Wake] \<and> state m3 = Some baseState"
    if "n < HOLD_INTERVAL" for n k
    using that p1 m1 b
    by (simp add: process_def wakeState_process_def enter_exit_defs advance_quiet advance_idle)
  from p1 m1 hold tap show ?thesis by simp
qed

theorem wake_then_hold_witness:
  "wf (init False) \<and> state (init False) = Some baseState \<and> \<not> screenEnabled (init False) \<and>
   (\<exists>m1. run [Signal SleepPress] (init False) = Inr m1 \<and> fired m1 = [Wake] \<and>
      state m1 = Some wakeState \<and> wakeState_delegateState m1 = Some sleepState) \<and>
   HOLD_INTERVAL \<le> 1500 \<and>
   (\<exists>m2. run [Signal SleepPress, Wait 1500] (init False) = Inr m2 \<and>
      fired m2 = [Wake, HoldSleep] \<and> state m2 = Some baseState) \<and>
   (1499::nat) < HOLD_INTERVAL \<and>
   (\<exists>m3. run [Signal SleepPress, Wait 1499, Signal SleepRelease, Wait 5000] (init False) = Inr m3 \<and>
      fired m3 = [Wake] \<and> state m3 = Some baseState)"
proof -
  have h: "wf (init False)" "state (init False) = Some baseState" "\<not> screenEnabled (init False)"
    by (simp_all add: wf_init)
  have t: "HOLD_INTERVAL \<le> 1500" "(1499::nat) < HOLD_INTERVAL"
    by (simp_all add: HOLD_INTERVAL_def)
  from wake_then_hold [OF h] h t show ?thesis by simp
qed

subsection \<open>C5: autorepeat of Volume-Up\<close>

text \<open>
  Claim C5. After a VolumeUp-Press in \<^verbatim>\<open>baseState\<close> nothing is fired while fewer than
  \<open>REPEAT_DELAY\<close> milliseconds have passed. Once \<open>REPEAT_DELAY\<close> plus \<open>k\<close> whole
  \<open>REPEAT_INTERVAL\<close>s (and a rest shorter than one interval) have passed, exactly
  \<open>k + 1\<close> \<open>VolumeUp\<close> events have been fired, the first by the \<open>REPEAT_DELAY\<close> timer and
  one more per interval, and the state is marked as repeating; for \<open>k = 3\<close> these are the
  four events of the claim. The matching release then fires nothing more, returns to
  \<^verbatim>\<open>baseState\<close>, and no event follows later.
\<close>

theorem volume_autorepeat:
  assumes "wf m" "state m = Some baseState"
  shows "(\<forall>n<REPEAT_DELAY. \<exists>m1. run [Signal VolumeUpPress, Wait n] m = Inr m1 \<and>
            fired m1 = fired m) \<and>
         (\<forall>k r. r < REPEAT_INTERVAL \<longrightarrow>
            (\<exists>m2 m3.
               run [Signal VolumeUpPress, Wait (REPEAT_DELAY + k * REPEAT_INTERVAL + r)] m = Inr m2 \<and>
               fired m2 = fired m @ replicate (Suc k) VolumeUp \<and>
               volumeState_repeating m2 \<and> state m2 = Some volumeState \<and>
               run [Signal VolumeUpRelease] m2 = Inr m3 \<and>
               fired m3 = fired m @ replicate (Suc k) VolumeUp \<and> state m3 = Some baseState \<and>
               (\<forall>a. fired (advance a m3) = fired m @ replicate (Suc k) VolumeUp)))"
proof (intro conjI allI impI)
  fix n assume "n < REPEAT_DELAY"
  moreover have "pending m = []" "0 < next_id m"
    using assms by (simp_all add: wf_base wf_next_id)
  ultimately show "\<exists>m1. run [Signal VolumeUpPress, Wait n] m = Inr m1 \<and> fired m1 = fired m"
    using assms(2) by (simp add: step_defs advance_quiet)
next
  fix k r assume "r < REPEAT_INTERVAL"
  from volume_up_held [OF assms this, of k] obtain m2 j d where m2:
    "run [Signal VolumeUpPress, Wait (REPEAT_DELAY + k * REPEAT_INTERVAL + r)] m = Inr m2"
    "state m2 = Some volumeState" "volumeState_direction m2 = Some VolumeUpPress"
    "volumeState_repeating m2" "fired m2 = fired m @ replicate (Suc k) VolumeUp"
    "pending m2 = [(j, d, VolumeRepeat)]" "volumeState_timer m2 = Some j" "0 < j"
    by blast
  have "\<exists>m3. run [Signal VolumeUpRelease] m2 = Inr m3 \<and>
      fired m3 = fired m @ replicate (Suc k) VolumeUp \<and> state m3 = Some baseState \<and>
      (\<forall>a. fired (advance a m3) = fired m @ replicate (Suc k) VolumeUp)"
    using m2(2-) by (simp add: step_defs advance_idle)
  with m2(1,2,4,5) show "\<exists>m2 m3.
      run [Signal VolumeUpPress, Wait (REPEAT_DELAY + k * REPEAT_INTERVAL + r)] m = Inr m2 \<and>
      fired m2 = fired m @ replicate (Suc k) VolumeUp \<and>
      volumeState_repeating m2 \<and> state m2 = Some volumeState \<and>
      run [Signal VolumeUpRelease] m2 = Inr m3 \<and>
      fired m3 = fired m @ replicate (Suc k) VolumeUp \<and> state m3 = Some baseState \<and>
      (\<forall>a. fired (advance a m3) = fired m @ replicate (Suc k) VolumeUp)"
    by blast
qed

theorem volume_autorepeat_witness:
  "wf (init True) \<and> state (init True) = Some baseState \<and> (699::nat) < REPEAT_DELAY \<and>
   (\<exists>m1. run [Signal VolumeUpPress, Wait 699] (init True) = Inr m1 \<and> fired m1 = []) \<and>
   (0::nat) < REPEAT_INTERVAL \<and>
   (\<exists>m2 m3. run [Signal VolumeUpPress, Wait 1000] (init True) = Inr m2 \<and>
      fired m2 = [VolumeUp, VolumeUp, VolumeUp, VolumeUp] \<and>
      volumeState_repeating m2 \<and> state m2 = Some volumeState \<and>
      run [Signal VolumeUpRelease] m2 = Inr m3 \<and>
      fired m3 = [VolumeUp, VolumeUp, VolumeUp, VolumeUp] \<and> state m3 = Some baseState \<and>
      (\<forall>a. fired (advance a m3) = [VolumeUp, VolumeUp, VolumeUp, VolumeUp]))"
proof -
  have h: "wf (init True)" "state (init True) = Some baseState"
    by (simp_all add: wf_init)
  have t: "(699::nat) < REPEAT_DELAY" "(0::nat) < REPEAT_INTERVAL"
    "REPEAT_DELAY + 3 * REPEAT_INTERVAL + 0 = 1000"
    by (simp_all add: REPEAT_DELAY_def REPEAT_INTERVAL_def)
  have r: "replicate (Suc 3) VolumeUp = [VolumeUp, VolumeUp, VolumeUp, VolumeUp]"
    by (simp add: numeral_3_eq_3)
  from volume_autorepeat [OF h] have
    "\<exists>m1. run [Signal VolumeUpPress, Wait 699] (init True) = Inr m1 \<and> fired m1 = fired (init True)"
    "\<exists>m2 m3.
       run [Signal VolumeUpPress, Wait (REPEAT_DELAY + 3 * REPEAT_INTERVAL + 0)] (init True) = Inr m2 \<and>
       fired m2 = fired (init True) @ replicate (Suc 3) VolumeUp \<and>
       volumeState_repeating m2 \<and> state m2 = Some volumeState \<and>
       run [Signal VolumeUpRelease] m2 = Inr m3 \<and>
       fired m3 = fired (init True) @ replicate (Suc 3) VolumeUp \<and> state m3 = Some baseState \<and>
       (\<forall>a. fired (advance a m3) = fired (init True) @ replicate (Suc 3) VolumeUp)"
    using t(1,2) by blast+
  then show ?thesis
    unfolding t(3) r using h t(1,2) by simp
qed

subsection \<open>C6: a tap on Volume-Down\<close>

text \<open>
  Claim C6. A VolumeDown-Press in \<^verbatim>\<open>baseState\<close> followed, fewer than \<open>REPEAT_DELAY\<close>
  milliseconds later (no repeat timer has fired), by a VolumeDown-Release: nothing is
  fired before the release, the release fires exactly one \<open>VolumeDown\<close> event, the
  machine ends in \<^verbatim>\<open>baseState\<close>, and no event follows later.
\<close>

theorem volume_tap:
  assumes "wf m" "state m = Some baseState" "n < REPEAT_DELAY"
  shows "\<exists>m1 m2. run [Signal VolumeDownPress, Wait n] m = Inr m1 \<and> fired m1 = fired m \<and>
           run [Signal VolumeDownPress, Wait n, Signal VolumeDownRelease] m = Inr m2 \<and>
           fired m2 = fired m @ [VolumeDown] \<and> state m2 = Some baseState \<and>
           (\<forall>k. fired (advance k m2) = fired m @ [VolumeDown])"
proof -
  have "pending m = []" "0 < next_id m"
    using assms by (simp_all add: wf_base wf_next_id)
  with assms(2-) show ?thesis
    by (simp add: step_defs advance_quiet advance_idle)
qed

theorem volume_tap_witness:
  "wf (init True) \<and> state (init True) = Some baseState \<and> (699::nat) < REPEAT_DELAY \<and>
   (\<exists>m1 m2. run [Signal VolumeDownPress, Wait 699] (init True) = Inr m1 \<and> fired m1 = [] \<and>
      run [Signal VolumeDownPress, Wait 699, Signal VolumeDownRelease] (init True) = Inr m2 \<and>
      fired m2 = [VolumeDown] \<and> state m2 = Some baseState \<and>
      (\<forall>k. fired (advance k m2) = [VolumeDown]))"
proof -
  have h: "wf (init True)" "state (init True) = Some baseState" "(699::nat) < REPEAT_DELAY"
    by (simp_all add: wf_init REPEAT_DELAY_def)
  from volume_tap [OF h] h show ?thesis by simp
qed

subsection \<open>C7: a tap on Home\<close>

text \<open>
  Claim C7. With the display on, a Home-Press in \<^verbatim>\<open>baseState\<close> followed, fewer than
  \<open>HOLD_INTERVAL\<close> milliseconds later (before the hold timer fires), by a Home-Release:
  nothing is fired up to the release, the release fires exactly one \<open>Home\<close> event, the
  machine is back in \<^verbatim>\<open>baseState\<close>, and however long one waits afterwards no other
  event (no \<open>HoldHome\<close>) follows.
\<close>

theorem home_tap:
  assumes "wf m" "state m = Some baseState" "screenEnabled m" "n < HOLD_INTERVAL"
  shows "\<exists>m1 m2. run [Signal HomePress, Wait n] m = Inr m1 \<and> fired m1 = fired m \<and>
           run [Signal HomePress, Wait n, Signal HomeRelease] m = Inr m2 \<and>
           fired m2 = fired m @ [Home] \<and> state m2 = Some baseState \<and>
           (\<forall>k. fired (advance k m2) = fired m @ [Home])"
proof -
  have "pending m = []" "0 < next_id m"
    using assms by (simp_all add: wf_base wf_next_id)
  with assms(2-) show ?thesis
    by (simp add: step_defs advance_quiet advance_idle)
qed

theorem home_tap_witness:
  "wf (init True) \<and> state (init True) = Some baseState \<and> screenEnabled (init True) \<and>
   (100::nat) < HOLD_INTERVAL \<and>
   (\<exists>m1 m2. run [Signal HomePress, Wait 100] (init True) = Inr m1 \<and> fired m1 = [] \<and>
      run [Signal HomePress, Wait 100, Signal HomeRelease] (init True) = Inr m2 \<and>
      fired m2 = [Home] \<and> state m2 = Some baseState \<and>
      (\<forall>k. fired (advance k m2) = [Home]))"
proof -
  have h: "wf (init True)" "state (init True) = Some baseState" "screenEnabled (init True)"
    "(100::nat) < HOLD_INTERVAL"
    by (simp_all add: wf_init HOLD_INTERVAL_def)
  from home_tap [OF h] h show ?thesis by simp
qed

subsection \<open>C8: the Home+Sleep combination\<close>

text \<open>
  Claim C8 asks only that the Sleep-Press comes before either button is released. That is
  not enough: when Home has been held for \<open>HOLD_INTERVAL\<close> milliseconds, the hold
  timer of \<^verbatim>\<open>homeState\<close> has fired \<open>HoldHome\<close> and returned to \<^verbatim>\<open>baseState\<close>, so the
  Sleep-Press (display on, module just loaded) enters \<^verbatim>\<open>sleepState\<close> and no
  \<open>HomeSleep\<close> is fired; of the later releases, a Home-Release first is reported
  through \<^verbatim>\<open>console.error\<close>, and a Sleep-Release first fires \<open>Sleep\<close>.
\<close>

theorem home_sleep_late_counterexample:
  "HOLD_INTERVAL = 1500 \<and>
   outcome [Signal HomePress, Wait 1500] (init True) = Inr (Some baseState, [HoldHome], []) \<and>
   outcome [Signal HomePress, Wait 1500, Signal SleepPress] (init True) =
     Inr (Some sleepState, [HoldHome], []) \<and>
   outcome [Signal HomePress, Wait 1500, Signal SleepPress, Signal HomeRelease,
            Signal SleepRelease] (init True) =
     Inr (Some baseState, [HoldHome], [HomeRelease]) \<and>
   outcome [Signal HomePress, Wait 1500, Signal SleepPress, Signal SleepRelease,
            Signal HomeRelease] (init True) =
     Inr (Some baseState, [HoldHome, Sleep], [])"
proof -
  define m1 where "m1 = setState homeState (Some HomePress) (init True)"
  have p1: "process HomePress (init True) = Inr m1"
    by (simp add: process_def m1_def)
  have m1: "pending m1 = [(1, 1500, HomeHold)]" "now m1 = 0"
    by (simp_all add: m1_def init_def loading_def enter_exit_defs)
  have "advance (1500 - now m1) m1 =
      run_callback HomeHold (m1\<lparr>now := 1500, pending := [], ran := ran m1 @ [1]\<rparr>)"
    using m1 by (intro advance_fire) simp_all
  then have a: "advance 1500 m1 =
      run_callback HomeHold (m1\<lparr>now := 1500, pending := [], ran := ran m1 @ [1]\<rparr>)"
    using m1(2) by simp
  show ?thesis
    by (simp add: outcome_def p1 a)
       (simp add: m1_def init_def loading_def step_defs)
qed

text \<open>
  Claim C8 as amended. A Home-Press in \<^verbatim>\<open>baseState\<close> followed, before either button
  is released and before the hold timer of Home fires (fewer than \<open>HOLD_INTERVAL\<close>
  milliseconds later), by a Sleep-Press fires exactly one \<open>HomeSleep\<close> event and neither
  \<open>Home\<close> nor \<open>Sleep\<close>, and the machine is back in \<^verbatim>\<open>baseState\<close>; on a sleeping
  display the Home-Press has fired its \<open>Wake\<close> before. The releases of the two buttons,
  in either order and after any delays, are processed in \<^verbatim>\<open>baseState\<close> and fire
  nothing further.
\<close>

theorem home_sleep_combo:
  assumes "wf m" "state m = Some baseState" "n < HOLD_INTERVAL"
  shows "\<exists>m2. run [Signal HomePress, Wait n, Signal SleepPress] m = Inr m2 \<and>
           fired m2 = fired m @ (if screenEnabled m then [] else [Wake]) @ [HomeSleep] \<and>
           state m2 = Some baseState \<and>
           (\<forall>a b c. \<exists>m3.
              run [Wait a, Signal HomeRelease, Wait b, Signal SleepRelease, Wait c] m2 = Inr m3 \<and>
              fired m3 = fired m2 \<and> state m3 = Some baseState) \<and>
           (\<forall>a b c. \<exists>m3.
              run [Wait a, Signal SleepRelease, Wait b, Signal HomeRelease, Wait c] m2 = Inr m3 \<and>
              fired m3 = fired m2 \<and> state m3 = Some baseState)"
proof -
  have "pending m = []" "0 < next_id m"
    using assms by (simp_all add: wf_base wf_next_id)
  with assms(2-) show ?thesis
    by (simp add: step_defs wakeState_process_def advance_quiet advance_idle)
qed

theorem home_sleep_combo_witness:
  "wf (init True) \<and> state (init True) = Some baseState \<and> (300::nat) < HOLD_INTERVAL \<and>
   (\<exists>m2. run [Signal HomePress, Wait 300, Signal SleepPress] (init True) = Inr m2 \<and>
      fired m2 = [HomeSleep] \<and> state m2 = Some baseState \<and>
      (\<forall>a b c. \<exists>m3.
         run [Wait a, Signal HomeRelease, Wait b, Signal SleepRelease, Wait c] m2 = Inr m3 \<and>
         fired m3 = fired m2 \<and> state m3 = Some baseState) \<and>
      (\<forall>a b c. \<exists>m3.
         run [Wait a, Signal SleepRelease, Wait b, Signal HomeRelease, Wait c] m2 = Inr m3 \<and>
         fired m3 = fired m2 \<and> state m3 = Some baseState))"
proof -
  have h: "wf (init True)" "state (init True) = Some baseState" "(300::nat) < HOLD_INTERVAL"
    by (simp_all add: wf_init HOLD_INTERVAL_def)
  from home_sleep_combo [OF h] h show ?thesis by simp
qed

subsection \<open>C9: from Volume to Sleep\<close>

text \<open>
  Claim C9. A Sleep-Press processed in \<^verbatim>\<open>volumeState\<close> fires nothing and enters
  \<^verbatim>\<open>sleepState\<close>: the exit disarms the pending autorepeat timer and clears
  \<^verbatim>\<open>volumeState.timer\<close>, the entry arms one fresh timer, due \<open>HOLD_INTERVAL\<close>
  milliseconds later, with the hold callback of \<^verbatim>\<open>sleepState\<close>. Held on, the machine
  fires nothing before \<open>HOLD_INTERVAL\<close> has passed and exactly \<open>HoldSleep\<close> from then on,
  ending in \<^verbatim>\<open>baseState\<close>; the autorepeat callback that was pending never runs,
  whatever follows.
\<close>

theorem volume_to_sleep:
  assumes "wf m" "state m = Some volumeState"
  shows "\<exists>m1 i d. pending m = [(i, d, VolumeRepeat)] \<and> volumeState_timer m = Some i \<and>
           run [Signal SleepPress] m = Inr m1 \<and>
           state m1 = Some sleepState \<and> fired m1 = fired m \<and> volumeState_timer m1 = None \<and>
           pending m1 = [(next_id m, now m + HOLD_INTERVAL, SleepHold)] \<and>
           sleepState_timer m1 = Some (next_id m) \<and>
           (\<forall>n<HOLD_INTERVAL. fired (advance n m1) = fired m) \<and>
           (\<forall>n\<ge>HOLD_INTERVAL.
              fired (advance n m1) = fired m @ [HoldSleep] \<and>
              state (advance n m1) = Some baseState) \<and>
           (\<forall>ss m2. run ss m1 = Inr m2 \<longrightarrow> i \<notin> set (ran m2))"
proof -
  from assms obtain i d c where t: "pending m = [(i, d, c)]" "timer_of volumeState m = Some i"
    "owns volumeState m c" "0 < i"
    by (rule wf_armed) simp
  then have c: "c = VolumeRepeat" and vt: "volumeState_timer m = Some i"
    by simp_all
  have nid: "0 < next_id m"
    using assms(1) by (rule wf_next_id)
  define m1 where "m1 = setState sleepState (Some SleepPress) m"
  have p1: "run [Signal SleepPress] m = Inr m1"
    using assms(2) by (simp add: process_def m1_def)
  have m1: "state m1 = Some sleepState" "fired m1 = fired m" "volumeState_timer m1 = None"
    "pending m1 = [(next_id m, now m + HOLD_INTERVAL, SleepHold)]"
    "sleepState_timer m1 = Some (next_id m)" "now m1 = now m"
    using assms(2) t(1,4) vt by (simp_all add: m1_def enter_exit_defs)
  have before: "fired (advance n m1) = fired m" if "n < HOLD_INTERVAL" for n
    using that m1 by (simp add: advance_quiet HOLD_INTERVAL_def)
  have after: "fired (advance n m1) = fired m @ [HoldSleep] \<and> state (advance n m1) = Some baseState"
    if "HOLD_INTERVAL \<le> n" for n
  proof -
    have "advance n m1 = advance (now m1 + n - (now m + HOLD_INTERVAL))
        (run_callback SleepHold
           (m1\<lparr>now := now m + HOLD_INTERVAL, pending := [], ran := ran m1 @ [next_id m]\<rparr>))"
      using that m1(4,6) by (intro advance_past) (simp_all add: HOLD_INTERVAL_def)
    then show ?thesis
      using m1 nid by (simp add: step_defs advance_idle)
  qed
  have never: "i \<notin> set (ran m2)" if "run ss m1 = Inr m2" for ss m2
    using setState_cancels(2) [OF assms(1,2) _ t(1), of ss sleepState "Some SleepPress" m2] that
    by (simp add: m1_def)
  from t(1) c vt p1 m1 before after never show ?thesis by simp
qed

theorem volume_to_sleep_witness:
  "wf (setState volumeState (Some VolumeUpPress) (init True)) \<and>
   state (setState volumeState (Some VolumeUpPress) (init True)) = Some volumeState \<and>
   pending (setState volumeState (Some VolumeUpPress) (init True)) = [(1, 700, VolumeRepeat)] \<and>
   (1000::nat) < HOLD_INTERVAL \<and> HOLD_INTERVAL \<le> 1500 \<and>
   (\<exists>m1. run [Signal SleepPress] (setState volumeState (Some VolumeUpPress) (init True)) = Inr m1 \<and>
      state m1 = Some sleepState \<and> fired m1 = [] \<and> volumeState_timer m1 = None \<and>
      pending m1 = [(2, 1500, SleepHold)] \<and> sleepState_timer m1 = Some 2 \<and>
      fired (advance 1000 m1) = [] \<and>
      fired (advance 1500 m1) = [HoldSleep] \<and> state (advance 1500 m1) = Some baseState \<and>
      1 \<notin> set (ran (advance 1500 m1)))"
proof -
  have h: "wf (setState volumeState (Some VolumeUpPress) (init True))"
    "state (setState volumeState (Some VolumeUpPress) (init True)) = Some volumeState"
    by (simp_all add: wf_init wf_setState)
  have p: "pending (setState volumeState (Some VolumeUpPress) (init True)) = [(1, 700, VolumeRepeat)]"
    "next_id (setState volumeState (Some VolumeUpPress) (init True)) = 2"
    "now (setState volumeState (Some VolumeUpPress) (init True)) = 0"
    "fired (setState volumeState (Some VolumeUpPress) (init True)) = []"
    by (simp_all add: init_def loading_def enter_exit_defs)
  have t: "(1000::nat) < HOLD_INTERVAL" "HOLD_INTERVAL \<le> 1500" "0 + HOLD_INTERVAL = 1500"
    by (simp_all add: HOLD_INTERVAL_def)
  from volume_to_sleep [OF h] obtain m1 i d where m1:
    "pending (setState volumeState (Some VolumeUpPress) (init True)) = [(i, d, VolumeRepeat)]"
    "run [Signal SleepPress] (setState volumeState (Some VolumeUpPress) (init True)) = Inr m1"
    "state m1 = Some sleepState" "fired m1 = []" "volumeState_timer m1 = None"
    "pending m1 = [(2, 1500, SleepHold)]" "sleepState_timer m1 = Some 2"
    "\<forall>n<HOLD_INTERVAL. fired (advance n m1) = []"
    "\<forall>n\<ge>HOLD_INTERVAL. fired (advance n m1) = [] @ [HoldSleep] \<and>
       state (advance n m1) = Some baseState"
    "\<forall>ss m2. run ss m1 = Inr m2 \<longrightarrow> i \<notin> set (ran m2)"
    unfolding p t(3) by blast
  from m1(1) p(1) have "i = 1" by simp
  moreover have "run [Wait 1500] m1 = Inr (advance 1500 m1)" by simp
  ultimately have "1 \<notin> set (ran (advance 1500 m1))"
    using m1(10) by blast
  with m1 h p(1) t(1,2) show ?thesis by auto
qed

subsection \<open>C10: entering Volume starts afresh\<close>

text \<open>
  Claim C10. Every entry into \<^verbatim>\<open>volumeState\<close> sets \<^verbatim>\<open>repeating\<close> to false and
  \<^verbatim>\<open>direction\<close> to the type it is entered with, whatever the fields held before; and
  whenever a raw signal takes the machine into \<^verbatim>\<open>volumeState\<close> from another state,
  the flag is false and the direction is that signal. In particular, after a Volume-Up
  gesture that has autorepeated and been released (the flag is still true and the
  direction still up in \<^verbatim>\<open>baseState\<close>), a tap on either volume button fires its
  single event at the release.
\<close>

theorem volume_entry_resets:
  assumes "wf m"
  shows "\<not> volumeState_repeating (setState volumeState ty m0) \<and>
         volumeState_direction (setState volumeState ty m0) = ty \<and>
         (\<forall>sig m1. process sig m = Inr m1 \<and> state m \<noteq> Some volumeState \<and>
              state m1 = Some volumeState \<longrightarrow>
            \<not> volumeState_repeating m1 \<and> volumeState_direction m1 = Some sig) \<and>
         (state m = Some baseState \<longrightarrow>
            (\<forall>k r a n. r < REPEAT_INTERVAL \<and> n < REPEAT_DELAY \<longrightarrow>
               (\<exists>m3 m4 m5.
                  run [Signal VolumeUpPress, Wait (REPEAT_DELAY + k * REPEAT_INTERVAL + r),
                       Signal VolumeUpRelease, Wait a] m = Inr m3 \<and>
                  state m3 = Some baseState \<and> volumeState_repeating m3 \<and>
                  volumeState_direction m3 = Some VolumeUpPress \<and>
                  fired m3 = fired m @ replicate (Suc k) VolumeUp \<and>
                  run [Signal VolumeDownPress, Wait n, Signal VolumeDownRelease] m3 = Inr m4 \<and>
                  fired m4 = fired m3 @ [VolumeDown] \<and>
                  run [Signal VolumeUpPress, Wait n, Signal VolumeUpRelease] m3 = Inr m5 \<and>
                  fired m5 = fired m3 @ [VolumeUp])))"
proof (intro conjI allI impI)
  show "\<not> volumeState_repeating (setState volumeState ty m0)"
    by (cases "state m0"; (cases "the (state m0)")?) (simp_all add: enter_exit_defs)
  show "volumeState_direction (setState volumeState ty m0) = ty"
    by (cases "state m0"; (cases "the (state m0)")?) (simp_all add: enter_exit_defs)
next
  fix sig m1
  assume a: "process sig m = Inr m1 \<and> state m \<noteq> Some volumeState \<and> state m1 = Some volumeState"
  from assms obtain cur where cur: "state m = Some cur"
    using wf_state by blast
  have enter: "\<not> volumeState_repeating (setState volumeState ty' m') \<and>
      volumeState_direction (setState volumeState ty' m') = ty'" if "state m' = Some cur" for ty' m'
    using that by (cases cur) (simp_all add: enter_exit_defs)
  have r: "\<not> volumeState_repeating m1 \<and> volumeState_direction m1 = Some sig"
  proof (cases cur)
    case baseState
    with a cur enter [of m] show ?thesis
      by (cases sig) (auto simp: process_def split: if_splits)
  next
    case homeState
    with a cur show ?thesis by (cases sig) (auto simp: process_def)
  next
    case sleepState
    with a cur enter [of m] show ?thesis by (cases sig) (auto simp: process_def)
  next
    case volumeState
    with a cur show ?thesis by simp
  next
    case wakeState
    with a cur enter [of m] wf_delegate [OF assms] show ?thesis
      by (cases sig) (auto simp: process_def wakeState_process_def)
  qed
  from r show "\<not> volumeState_repeating m1" by simp
  from r show "volumeState_direction m1 = Some sig" by simp
next
  fix k r a n
  assume b: "state m = Some baseState" and rn: "r < REPEAT_INTERVAL \<and> n < REPEAT_DELAY"
  from volume_up_held [OF assms b, of r k] rn obtain m2 j d where m2:
    "run [Signal VolumeUpPress, Wait (REPEAT_DELAY + k * REPEAT_INTERVAL + r)] m = Inr m2"
    "wf m2" "state m2 = Some volumeState" "volumeState_direction m2 = Some VolumeUpPress"
    "volumeState_repeating m2" "fired m2 = fired m @ replicate (Suc k) VolumeUp"
    "pending m2 = [(j, d, VolumeRepeat)]" "volumeState_timer m2 = Some j" "0 < j"
    by blast
  define m3 where "m3 = (setState baseState (Some VolumeUpRelease) m2)\<lparr>now := now m2 + a\<rparr>"
  have nid: "0 < next_id m2"
    using m2(2) by (rule wf_next_id)
  have "run [Signal VolumeUpRelease, Wait a] m2 = Inr m3"
    using m2(3-) by (simp add: m3_def step_defs advance_idle)
  with m2(1) have run3: "run [Signal VolumeUpPress, Wait (REPEAT_DELAY + k * REPEAT_INTERVAL + r),
      Signal VolumeUpRelease, Wait a] m = Inr m3"
    using run_append [of "[Signal VolumeUpPress, Wait (REPEAT_DELAY + k * REPEAT_INTERVAL + r)]"
        "[Signal VolumeUpRelease, Wait a]" m]
    by simp
  have m3: "state m3 = Some baseState" "volumeState_repeating m3"
    "volumeState_direction m3 = Some VolumeUpPress"
    "fired m3 = fired m @ replicate (Suc k) VolumeUp" "pending m3 = []" "0 < next_id m3"
    using m2(3-) nid by (simp_all add: m3_def enter_exit_defs)
  have "\<exists>m4. run [Signal VolumeDownPress, Wait n, Signal VolumeDownRelease] m3 = Inr m4 \<and>
      fired m4 = fired m3 @ [VolumeDown]"
    using m3(1,5,6) rn by (simp add: step_defs advance_quiet)
  moreover have "\<exists>m5. run [Signal VolumeUpPress, Wait n, Signal VolumeUpRelease] m3 = Inr m5 \<and>
      fired m5 = fired m3 @ [VolumeUp]"
    using m3(1,5,6) rn by (simp add: step_defs advance_quiet)
  ultimately show "\<exists>m3 m4 m5.
      run [Signal VolumeUpPress, Wait (REPEAT_DELAY + k * REPEAT_INTERVAL + r),
           Signal VolumeUpRelease, Wait a] m = Inr m3 \<and>
      state m3 = Some baseState \<and> volumeState_repeating m3 \<and>
      volumeState_direction m3 = Some VolumeUpPress \<and>
      fired m3 = fired m @ replicate (Suc k) VolumeUp \<and>
      run [Signal VolumeDownPress, Wait n, Signal VolumeDownRelease] m3 = Inr m4 \<and>
      fired m4 = fired m3 @ [VolumeDown] \<and>
      run [Signal VolumeUpPress, Wait n, Signal VolumeUpRelease] m3 = Inr m5 \<and>
      fired m5 = fired m3 @ [VolumeUp]"
    using run3 m3(1-4) by blast
qed

theorem volume_entry_resets_witness:
  "wf (init True) \<and> state (init True) = Some baseState \<and>
   (0::nat) < REPEAT_INTERVAL \<and> (100::nat) < REPEAT_DELAY \<and>
   (\<exists>m1. process VolumeDownPress (init True) = Inr m1 \<and> state (init True) \<noteq> Some volumeState \<and>
      state m1 = Some volumeState \<and> \<not> volumeState_repeating m1 \<and>
      volumeState_direction m1 = Some VolumeDownPress) \<and>
   (\<exists>m3 m4 m5.
      run [Signal VolumeUpPress, Wait 1000, Signal VolumeUpRelease, Wait 50] (init True) = Inr m3 \<and>
      state m3 = Some baseState \<and> volumeState_repeating m3 \<and>
      volumeState_direction m3 = Some VolumeUpPress \<and>
      fired m3 = [VolumeUp, VolumeUp, VolumeUp, VolumeUp] \<and>
      run [Signal VolumeDownPress, Wait 100, Signal VolumeDownRelease] m3 = Inr m4 \<and>
      fired m4 = [VolumeUp, VolumeUp, VolumeUp, VolumeUp, VolumeDown] \<and>
      run [Signal VolumeUpPress, Wait 100, Signal VolumeUpRelease] m3 = Inr m5 \<and>
      fired m5 = [VolumeUp, VolumeUp, VolumeUp, VolumeUp, VolumeUp])"
proof -
  have h: "wf (init True)" "state (init True) = Some baseState"
    by (simp_all add: wf_init)
  have t: "(0::nat) < REPEAT_INTERVAL" "(100::nat) < REPEAT_DELAY"
    "REPEAT_DELAY + 3 * REPEAT_INTERVAL + 0 = 1000"
    by (simp_all add: REPEAT_DELAY_def REPEAT_INTERVAL_def)
  have r: "replicate (Suc 3) VolumeUp = [VolumeUp, VolumeUp, VolumeUp, VolumeUp]"
    by (simp add: numeral_3_eq_3)
  have p: "process VolumeDownPress (init True) =
      Inr (setState volumeState (Some VolumeDownPress) (init True))"
    by (simp add: process_def)
  note inst = volume_entry_resets [OF h(1), of "Some VolumeDownPress" "init True"]
  from inst p h(2) have entry:
    "\<exists>m1. process VolumeDownPress (init True) = Inr m1 \<and> state (init True) \<noteq> Some volumeState \<and>
       state m1 = Some volumeState \<and> \<not> volumeState_repeating m1 \<and>
       volumeState_direction m1 = Some VolumeDownPress"
    by simp
  from inst h(2) t(1,2) have
    "\<exists>m3 m4 m5.
       run [Signal VolumeUpPress, Wait (REPEAT_DELAY + 3 * REPEAT_INTERVAL + 0),
            Signal VolumeUpRelease, Wait 50] (init True) = Inr m3 \<and>
       state m3 = Some baseState \<and> volumeState_repeating m3 \<and>
       volumeState_direction m3 = Some VolumeUpPress \<and>
       fired m3 = fired (init True) @ replicate (Suc 3) VolumeUp \<and>
       run [Signal VolumeDownPress, Wait 100, Signal VolumeDownRelease] m3 = Inr m4 \<and>
       fired m4 = fired m3 @ [VolumeDown] \<and>
       run [Signal VolumeUpPress, Wait 100, Signal VolumeUpRelease] m3 = Inr m5 \<and>
       fired m5 = fired m3 @ [VolumeUp]"
    by blast
  then have
    "\<exists>m3 m4 m5.
       run [Signal VolumeUpPress, Wait 1000, Signal VolumeUpRelease, Wait 50] (init True) = Inr m3 \<and>
       state m3 = Some baseState \<and> volumeState_repeating m3 \<and>
       volumeState_direction m3 = Some VolumeUpPress \<and>
       fired m3 = [VolumeUp, VolumeUp, VolumeUp, VolumeUp] \<and>
       run [Signal VolumeDownPress, Wait 100, Signal VolumeDownRelease] m3 = Inr m4 \<and>
       fired m4 = [VolumeUp, VolumeUp, VolumeUp, VolumeUp, VolumeDown] \<and>
       run [Signal VolumeUpPress, Wait 100, Signal VolumeUpRelease] m3 = Inr m5 \<and>
       fired m5 = [VolumeUp, VolumeUp, VolumeUp, VolumeUp, VolumeUp]"
    unfolding t(3) r by auto
  with h t(1,2) entry show ?thesis by blast
qed

end
